theory Spec2Isabelle
  imports Main
begin

section \<open>Python values, exceptions and callables\<close>

text \<open>
  The dispatcher of \<^verbatim>\<open>ophyd/_dispatch.py\<close> never looks inside the arguments of a
  callback; it only reads the keyword argument \<^verbatim>\<open>pvname\<close>.  Values are therefore a
  small datatype, with \<open>PyOpaque\<close> for every object the dispatcher just passes on
  (the context, the poll timeout).
\<close>

datatype pyval = PyNone | PyInt int | PyStr string | PyOpaque string

type_synonym kwargs = "(string \<times> pyval) list"

text \<open>\<^verbatim>\<open>kwargs.get(key)\<close>: the value stored under the key, \<^verbatim>\<open>None\<close> when absent.\<close>

definition kwargs_get :: "kwargs \<Rightarrow> string \<Rightarrow> pyval" where
  "kwargs_get kw k = (case map_of kw k of None \<Rightarrow> PyNone | Some v \<Rightarrow> v)"

text \<open>
  An exception object is either an instance of \<^verbatim>\<open>Exception\<close> (\<open>Exc\<close>) or an instance
  of \<^verbatim>\<open>BaseException\<close> only (\<open>BaseExc\<close>: \<^verbatim>\<open>SystemExit\<close>, \<^verbatim>\<open>KeyboardInterrupt\<close>,
  \<^verbatim>\<open>GeneratorExit\<close>).  The clause \<^verbatim>\<open>except Exception\<close> of the worker loop catches
  the first kind and lets the second kind pass.
\<close>

datatype exc = Exc string | BaseExc string

fun is_Exception :: "exc \<Rightarrow> bool" where
  "is_Exception (Exc n) = True"
| "is_Exception (BaseExc n) = False"

datatype outcome = Returns | Raises exc

datatype error = AssertionError

text \<open>
  A callable is either an ordinary one, \<open>Fn name body\<close>, or the closure \<^verbatim>\<open>wrapped\<close>
  that \<^verbatim>\<open>wrap_callback\<close> builds, \<open>Wrapped q c\<close>, which has captured the queue object
  \<open>q\<close> and the original callback \<open>c\<close>.  The \<open>name\<close> is the attribute \<^verbatim>\<open>__name__\<close>,
  absent for objects such as \<^verbatim>\<open>functools.partial\<close>.  The body of an ordinary
  callable acts on the state \<open>'u\<close> that the callbacks of the application share, and
  returns or raises.  The marker attribute \<^verbatim>\<open>_wrapped_callback\<close> is set by
  \<^verbatim>\<open>wrap_callback\<close> only, so it is true exactly of the closures.
\<close>

datatype 'u callable =
    Fn "string option" "pyval list \<Rightarrow> kwargs \<Rightarrow> 'u \<Rightarrow> outcome \<times> 'u"
  | Wrapped nat "'u callable"

type_synonym 'u task = "'u callable \<times> pyval list \<times> kwargs"

text \<open>
  \<^verbatim>\<open>callback.__name__\<close>.  \<^verbatim>\<open>functools.wraps\<close> copies the name of the original
  callback when it has one; otherwise the closure keeps its own name, \<^verbatim>\<open>wrapped\<close>.
\<close>

fun dunder_name :: "'u callable \<Rightarrow> string option" where
  "dunder_name (Fn n b) = n"
| "dunder_name (Wrapped q c) =
     (case dunder_name c of None \<Rightarrow> Some ''wrapped'' | Some n \<Rightarrow> Some n)"

text \<open>\<^verbatim>\<open>getattr(callback, '_wrapped_callback', False)\<close>\<close>

fun wrapped_callback_attr :: "'u callable \<Rightarrow> bool" where
  "wrapped_callback_attr (Fn n b) = False"
| "wrapped_callback_attr (Wrapped q c) = True"

section \<open>Threads, queues and the dispatcher\<close>

text \<open>What the logger has received, in order.\<close>

datatype 'u log_entry =
    Debug_started string
  | Debug_attaching string pyval
  | Debug_detaching string pyval
  | Debug_exiting string
  | Exception_logged "'u callable" pyval exc

text \<open>
  Where a thread is in \<^verbatim>\<open>_CallbackThread.run\<close>: not started yet; started, before the
  first statement of \<open>run\<close>; at the test of the \<^verbatim>\<open>while\<close> loop; inside
  \<^verbatim>\<open>queue.get\<close>; between the assignment of \<^verbatim>\<open>current_callback\<close> and the call of the
  callback; returned from \<open>run\<close>; or terminated by an exception that left \<open>run\<close>.
\<close>

datatype 'u phase =
    Created | Started | Checking | Polling | Executing "'u task" | Finished | Crashed exc

text \<open>
  A \<^verbatim>\<open>_CallbackThread\<close> object.  Its attributes \<^verbatim>\<open>dispatcher\<close>, \<^verbatim>\<open>logger\<close> and
  \<^verbatim>\<open>stop_event\<close> refer to objects shared with the dispatcher and live in the system
  state below; \<open>w_queue\<close> is a reference to a queue object.  \<open>w_handled\<close> is
  history kept for the proofs: the tasks this thread has finished with, in order.
\<close>

record 'u worker =
  w_name :: string
  w_daemon :: bool
  w_context :: pyval
  current_callback :: "(string \<times> pyval) option"
  w_timeout :: pyval
  w_queue :: nat
  w_phase :: "'u phase"
  w_handled :: "'u task list"

text \<open>\<^verbatim>\<open>Thread.is_alive()\<close>: between \<open>start()\<close> and the end of \<open>run\<close>.\<close>

fun phase_alive :: "'u phase \<Rightarrow> bool" where
  "phase_alive Created = False"
| "phase_alive Started = True"
| "phase_alive Checking = True"
| "phase_alive Polling = True"
| "phase_alive (Executing t) = True"
| "phase_alive Finished = False"
| "phase_alive (Crashed e) = False"

definition thread_is_alive :: "'u worker \<Rightarrow> bool" where
  "thread_is_alive w = phase_alive (w_phase w)"

text \<open>The task a thread has taken from its queue and not finished with, if any.\<close>

fun in_flight :: "'u phase \<Rightarrow> 'u task list" where
  "in_flight (Executing t) = [t]"
| "in_flight p = []"

text \<open>
  The thread that runs \<^verbatim>\<open>EventDispatcher.stop\<close>: outside \<open>stop\<close>, or inside its loop
  with the threads still to be joined.
\<close>

datatype stop_pc = Not_stopping | Joining "nat list"

text \<open>
  An \<^verbatim>\<open>EventDispatcher\<close> together with the objects it shares with its threads: the
  thread objects (\<open>thread_heap\<close>, a thread is referred to by its index), the
  \<^verbatim>\<open>queue.Queue\<close> objects (\<open>queue_heap\<close>, \<open>queue_count\<close> of them allocated), the
  logger, and the state \<open>shared\<close> of the application that callbacks act on.  The
  dictionary \<^verbatim>\<open>_threads\<close> is an association list in insertion order.  \<open>enqueued\<close>
  and \<open>dequeued\<close> are history kept for the proofs: the tasks ever put on a queue
  and the tasks ever taken from it, in order.  Nothing reads them.
\<close>

record 'u system =
  d_threads :: "(string \<times> nat) list"
  d_timeout :: pyval
  stop_event :: bool
  d_context :: pyval
  d_utility_threads :: "string list"
  d_utility_queue :: nat
  d_debug_monitor :: bool
  thread_heap :: "'u worker list"
  queue_heap :: "nat \<Rightarrow> 'u task list"
  queue_count :: nat
  logger :: "'u log_entry list"
  shared :: 'u
  stop_call :: stop_pc
  enqueued :: "nat \<Rightarrow> 'u task list"
  dequeued :: "nat \<Rightarrow> 'u task list"

text \<open>\<^verbatim>\<open>d[k] = v\<close> on a dictionary: replace in place, or append.\<close>

fun dict_set :: "('k \<times> 'v) list \<Rightarrow> 'k \<Rightarrow> 'v \<Rightarrow> ('k \<times> 'v) list" where
  "dict_set [] k v = [(k, v)]"
| "dict_set ((k', v') # kvs) k v =
     (if k' = k then (k, v) # kvs else (k', v') # dict_set kvs k v)"

text \<open>\<^verbatim>\<open>queue.Queue()\<close>: a new, empty, unbounded queue.\<close>

definition new_queue :: "'u system \<Rightarrow> nat \<times> 'u system" where
  "new_queue s =
     (queue_count s,
      s\<lparr>queue_heap := (queue_heap s)(queue_count s := []),
        queue_count := Suc (queue_count s),
        enqueued := (enqueued s)(queue_count s := []),
        dequeued := (dequeued s)(queue_count s := [])\<rparr>)"

text \<open>\<^verbatim>\<open>Queue.put(item)\<close> on an unbounded queue: append, never blocks.\<close>

definition queue_put :: "nat \<Rightarrow> 'u task \<Rightarrow> 'u system \<Rightarrow> 'u system" where
  "queue_put q t s =
     s\<lparr>queue_heap := (queue_heap s)(q := queue_heap s q @ [t]),
       enqueued := (enqueued s)(q := enqueued s q @ [t])\<rparr>"

text \<open>
  Calling a callable.  The closure of \<^verbatim>\<open>wrap_callback\<close> puts the task on its queue
  and returns; an ordinary callable runs its body on the shared state.
\<close>

fun call_callable ::
  "'u callable \<Rightarrow> pyval list \<Rightarrow> kwargs \<Rightarrow> 'u system \<Rightarrow> outcome \<times> 'u system" where
  "call_callable (Fn n body) args kw s =
     (case body args kw (shared s) of (r, u) \<Rightarrow> (r, s\<lparr>shared := u\<rparr>))"
| "call_callable (Wrapped q c) args kw s = (Returns, queue_put q (c, args, kw) s)"

subsection \<open>The callback thread\<close>

text \<open>
  \<^verbatim>\<open>_CallbackThread.__init__\<close>: a queue of its own unless one is passed in.
\<close>

definition CallbackThread_init ::
  "string \<Rightarrow> pyval \<Rightarrow> pyval \<Rightarrow> nat option \<Rightarrow> bool \<Rightarrow> 'u system \<Rightarrow> 'u worker \<times> 'u system" where
  "CallbackThread_init name context timeout callback_queue daemon s =
     (case (case callback_queue of None \<Rightarrow> new_queue s | Some q \<Rightarrow> (q, s)) of
        (q, s') \<Rightarrow>
          (\<lparr>w_name = name, w_daemon = daemon, w_context = context,
            current_callback = None, w_timeout = timeout, w_queue = q,
            w_phase = Created, w_handled = []\<rparr>, s'))"

definition log_append :: "'u log_entry list \<Rightarrow> 'u system \<Rightarrow> 'u system" where
  "log_append es s = s\<lparr>logger := logger s @ es\<rparr>"

definition attach_context :: "'u worker \<Rightarrow> 'u system \<Rightarrow> 'u worker \<times> 'u system" where
  "attach_context w s = (w, log_append [Debug_attaching (w_name w) (w_context w)] s)"

definition detach_context :: "'u worker \<Rightarrow> 'u system \<Rightarrow> 'u worker \<times> 'u system" where
  "detach_context w s =
     (w\<lparr>w_context := PyNone\<rparr>, log_append [Debug_detaching (w_name w) (w_context w)] s)"

text \<open>
  One step of \<^verbatim>\<open>_CallbackThread.run\<close> by the thread \<open>w\<close>.  The result is the thread
  object and the rest of the system; \<open>thread_heap\<close> is left alone here.
  \<^item> \<open>Started\<close>: the two statements before the loop.
  \<^item> \<open>Checking\<close>: the test \<^verbatim>\<open>while not self.stop_event.is_set()\<close>; when the event is
    set, the statements after the loop, and \<open>run\<close> returns.
  \<^item> \<open>Polling\<close>: \<^verbatim>\<open>self.queue.get(True, self.timeout)\<close>.  On an empty queue the step
    is the expiry of the timeout, \<^verbatim>\<open>queue.Empty\<close>, back to the test.  Otherwise the
    head of the queue is taken and \<^verbatim>\<open>current_callback\<close> is assigned inside the
    \<^verbatim>\<open>try\<close>: reading \<^verbatim>\<open>callback.__name__\<close> of a callable without one raises
    \<^verbatim>\<open>AttributeError\<close>, which the handler logs.
  \<^item> \<open>Executing\<close>: \<^verbatim>\<open>callback(*args, **kwargs)\<close> and the handler
    \<^verbatim>\<open>except Exception\<close>; any other exception leaves \<open>run\<close> and ends the thread.
\<close>

fun run_step :: "'u worker \<Rightarrow> 'u system \<Rightarrow> 'u worker \<times> 'u system" where
  "run_step w s =
     (case w_phase w of
        Created \<Rightarrow> (w, s)
      | Started \<Rightarrow>
          (case attach_context w (log_append [Debug_started (w_name w)] s) of
             (w', s') \<Rightarrow> (w'\<lparr>w_phase := Checking\<rparr>, s'))
      | Checking \<Rightarrow>
          (if stop_event s
           then (case detach_context w s of
                   (w', s') \<Rightarrow>
                     (w'\<lparr>w_phase := Finished\<rparr>, log_append [Debug_exiting (w_name w')] s'))
           else (w\<lparr>w_phase := Polling\<rparr>, s))
      | Polling \<Rightarrow>
          (case queue_heap s (w_queue w) of
             [] \<Rightarrow> (w\<lparr>w_phase := Checking\<rparr>, s)
           | (callback, args, kw) # rest \<Rightarrow>
               (let s' = s\<lparr>queue_heap := (queue_heap s)(w_queue w := rest),
                           dequeued := (dequeued s)(w_queue w :=
                             dequeued s (w_queue w) @ [(callback, args, kw)])\<rparr>
                in case dunder_name callback of
                     None \<Rightarrow>
                       (w\<lparr>w_phase := Checking,
                          w_handled := w_handled w @ [(callback, args, kw)]\<rparr>,
                        log_append [Exception_logged callback (kwargs_get kw ''pvname'')
                                      (Exc ''AttributeError'')] s')
                   | Some n \<Rightarrow>
                       (w\<lparr>current_callback := Some (n, kwargs_get kw ''pvname''),
                          w_phase := Executing (callback, args, kw)\<rparr>, s')))
      | Executing (callback, args, kw) \<Rightarrow>
          (case call_callable callback args kw s of
             (Returns, s') \<Rightarrow>
               (w\<lparr>w_phase := Checking,
                  w_handled := w_handled w @ [(callback, args, kw)]\<rparr>, s')
           | (Raises ex, s') \<Rightarrow>
               (if is_Exception ex
                then (w\<lparr>w_phase := Checking,
                        w_handled := w_handled w @ [(callback, args, kw)]\<rparr>,
                      log_append [Exception_logged callback (kwargs_get kw ''pvname'') ex] s')
                else (w\<lparr>w_phase := Crashed ex,
                        w_handled := w_handled w @ [(callback, args, kw)]\<rparr>, s')))
      | Finished \<Rightarrow> (w, s)
      | Crashed ex \<Rightarrow> (w, s))"

text \<open>The thread with index \<open>i\<close> is scheduled for one step.\<close>

definition tick :: "nat \<Rightarrow> 'u system \<Rightarrow> 'u system" where
  "tick i s =
     (if i < length (thread_heap s)
      then (case run_step (thread_heap s ! i) s of
              (w', s') \<Rightarrow> s'\<lparr>thread_heap := (thread_heap s')[i := w']\<rparr>)
      else s)"

subsection \<open>The dispatcher\<close>

text \<open>\<^verbatim>\<open>str(i)\<close> for a natural number: its decimal digits.\<close>

definition digit_char :: "nat \<Rightarrow> char" where
  "digit_char d = ''0123456789'' ! d"

fun str_nat :: "nat \<Rightarrow> string" where
  "str_nat n =
     (if n < 10 then [digit_char n]
      else str_nat (n div 10) @ [digit_char (n mod 10)])"

declare str_nat.simps [simp del]

text \<open>\<^verbatim>\<open>[f'util{i}' for i in range(utility_threads)]\<close>; the range of a negative count is empty.\<close>

definition utility_names :: "int \<Rightarrow> string list" where
  "utility_names n = map (\<lambda>i. ''util'' @ str_nat i) [0 ..< nat n]"

text \<open>
  \<^verbatim>\<open>EventDispatcher._start_thread\<close>: create the thread object, store it in
  \<^verbatim>\<open>_threads\<close> under its name, start it.  The thread class is the default,
  \<^verbatim>\<open>_CallbackThread\<close>.
\<close>

definition start_thread :: "string \<Rightarrow> nat option \<Rightarrow> 'u system \<Rightarrow> 'u system" where
  "start_thread name callback_queue s =
     (case CallbackThread_init name (d_context s) (d_timeout s) callback_queue True s of
        (w, s') \<Rightarrow>
          s'\<lparr>thread_heap := thread_heap s' @ [w\<lparr>w_phase := Started\<rparr>],
             d_threads := dict_set (d_threads s') name (length (thread_heap s'))\<rparr>)"

text \<open>
  \<^verbatim>\<open>EventDispatcher.__init__\<close>.  The logger and the shared state of the application
  exist before the dispatcher; \<open>lg\<close> and \<open>u\<close> are their contents.  The utility queue
  is created first, then the threads \<^verbatim>\<open>metadata\<close>, \<^verbatim>\<open>monitor\<close> and \<^verbatim>\<open>get_put\<close>, then
  the utility threads.  The debug monitor thread only reads and prints; of it the
  model keeps the flag.
\<close>

definition EventDispatcher_init ::
  "pyval \<Rightarrow> 'u log_entry list \<Rightarrow> pyval \<Rightarrow> bool \<Rightarrow> int \<Rightarrow> 'u \<Rightarrow> 'u system" where
  "EventDispatcher_init context lg timeout debug_monitor utility_threads u =
     (let s0 = \<lparr>d_threads = [], d_timeout = timeout, stop_event = False,
                d_context = context, d_utility_threads = utility_names utility_threads,
                d_utility_queue = 0, d_debug_monitor = False, thread_heap = [],
                queue_heap = (\<lambda>q. []), queue_count = 1, logger = lg, shared = u,
                stop_call = Not_stopping, enqueued = (\<lambda>q. []),
                dequeued = (\<lambda>q. [])\<rparr>;
          s1 = start_thread ''metadata'' None s0;
          s2 = start_thread ''monitor'' None s1;
          s3 = start_thread ''get_put'' None s2;
          s4 = fold (\<lambda>name. start_thread name (Some (d_utility_queue s3)))
                 (d_utility_threads s3) s3
      in s4\<lparr>d_debug_monitor := debug_monitor\<rparr>)"

text \<open>\<^verbatim>\<open>EventDispatcher.is_alive\<close>\<close>

definition is_alive :: "'u system \<Rightarrow> bool" where
  "is_alive s = list_ex (\<lambda>(name, t). thread_is_alive (thread_heap s ! t)) (d_threads s)"

text \<open>
  \<^verbatim>\<open>EventDispatcher.stop\<close> blocks in \<^verbatim>\<open>thread.join()\<close>, so it is two kinds of step.
  \<open>stop_begin\<close> sets the event and takes the snapshot \<^verbatim>\<open>list(self._threads.items())\<close>.
  \<open>stop_step\<close> is one turn of the loop: \<^verbatim>\<open>join\<close> returns when the thread is not alive
  and does nothing otherwise; after the loop the dictionary is cleared and \<open>stop\<close>
  returns.  The values of \<^verbatim>\<open>_threads\<close> are thread objects, never \<^verbatim>\<open>None\<close>, so the
  test \<^verbatim>\<open>thread is not None\<close> always passes.  One thread at a time runs \<open>stop\<close>.
\<close>

definition stop_begin :: "'u system \<Rightarrow> 'u system" where
  "stop_begin s =
     (case stop_call s of
        Not_stopping \<Rightarrow> s\<lparr>stop_event := True, stop_call := Joining (map snd (d_threads s))\<rparr>
      | Joining ts \<Rightarrow> s)"

definition stop_step :: "'u system \<Rightarrow> 'u system" where
  "stop_step s =
     (case stop_call s of
        Not_stopping \<Rightarrow> s
      | Joining [] \<Rightarrow> s\<lparr>d_threads := [], stop_call := Not_stopping\<rparr>
      | Joining (t # ts) \<Rightarrow>
          (if thread_is_alive (thread_heap s ! t) then s else s\<lparr>stop_call := Joining ts\<rparr>))"

text \<open>\<^verbatim>\<open>EventDispatcher.schedule_utility_task\<close>\<close>

definition schedule_utility_task ::
  "'u callable \<Rightarrow> pyval list \<Rightarrow> kwargs \<Rightarrow> 'u system \<Rightarrow> 'u system" where
  "schedule_utility_task callback args kw s = queue_put (d_utility_queue s) (callback, args, kw) s"

subsection \<open>The callback wrapper\<close>

text \<open>
  \<^verbatim>\<open>wrap_callback(dispatcher, event_type, callback)\<close>.  It changes nothing: it returns
  the callback itself, or fails on the \<^verbatim>\<open>assert\<close>, or returns a new closure over the
  queue of the thread stored under \<open>event_type\<close>.
\<close>

definition wrap_callback ::
  "'u system \<Rightarrow> string \<Rightarrow> 'u callable option \<Rightarrow> error + 'u callable option" where
  "wrap_callback dispatcher event_type callback =
     (case callback of
        None \<Rightarrow> Inr None
      | Some c \<Rightarrow>
          (if wrapped_callback_attr c then Inr (Some c)
           else (case map_of (d_threads dispatcher) event_type of
                   None \<Rightarrow> Inl AssertionError
                 | Some t \<Rightarrow>
                     Inr (Some (Wrapped (w_queue (thread_heap dispatcher ! t)) c)))))"

subsection \<open>Schedules\<close>

text \<open>
  The threads run in parallel.  A run of the system is a sequence of events, each
  one step of one thread: a callback thread (\<open>Tick\<close>), a producer that calls a
  callable, typically one returned by \<open>wrap_callback\<close> (\<open>Call\<close>), a producer that calls
  \<open>schedule_utility_task\<close>, or the thread inside \<open>stop\<close>.  A statement about every
  event list is a statement about every interleaving.
\<close>

datatype 'u event =
    Tick nat
  | Call "'u callable" "pyval list" kwargs
  | Schedule_utility "'u callable" "pyval list" kwargs
  | Stop_begin
  | Stop_step

fun step :: "'u event \<Rightarrow> 'u system \<Rightarrow> 'u system" where
  "step (Tick i) s = tick i s"
| "step (Call c args kw) s = snd (call_callable c args kw s)"
| "step (Schedule_utility c args kw) s = schedule_utility_task c args kw s"
| "step Stop_begin s = stop_begin s"
| "step Stop_step s = stop_step s"

definition exec :: "'u event list \<Rightarrow> 'u system \<Rightarrow> 'u system" where
  "exec evs s = fold step evs s"

subsection \<open>Notions used in the statements\<close>

text \<open>The thread object that \<open>start_thread\<close> leaves behind: started, nothing done yet.\<close>

definition fresh_worker :: "string \<Rightarrow> pyval \<Rightarrow> pyval \<Rightarrow> nat \<Rightarrow> 'u worker" where
  "fresh_worker name context timeout q =
     \<lparr>w_name = name, w_daemon = True, w_context = context, current_callback = None,
      w_timeout = timeout, w_queue = q, w_phase = Started, w_handled = []\<rparr>"

text \<open>
  A task whose callable, whatever the shared state, returns or raises an instance of
  \<^verbatim>\<open>Exception\<close>: it never raises an exception outside \<^verbatim>\<open>Exception\<close>.
\<close>

fun survivable :: "'u task \<Rightarrow> bool" where
  "survivable (Fn n body, args, kw) =
     (\<forall>u. case fst (body args kw u) of Returns \<Rightarrow> True | Raises ex \<Rightarrow> is_Exception ex)"
| "survivable (Wrapped q c, args, kw) = True"


text \<open>The thread \<open>i\<close> is the only one that takes tasks from the queue \<open>q\<close>.\<close>

definition sole_reader :: "nat \<Rightarrow> nat \<Rightarrow> 'u system \<Rightarrow> bool" where
  "sole_reader i q s \<longleftrightarrow>
     i < length (thread_heap s) \<and> w_queue (thread_heap s ! i) = q \<and>
     (\<forall>j < length (thread_heap s). j \<noteq> i \<longrightarrow> w_queue (thread_heap s ! j) \<noteq> q)"

text \<open>No thread object is alive.\<close>

definition all_dead :: "'u system \<Rightarrow> bool" where
  "all_dead s \<longleftrightarrow> (\<forall>w \<in> set (thread_heap s). \<not> thread_is_alive w)"

text \<open>
  The threads that \<open>stop\<close> still has to join cover the threads that are alive:
  outside \<open>stop\<close>, every live thread is a value of the dictionary; inside, the event
  is set and every live thread is still on the list.
\<close>

definition stop_inv :: "'u system \<Rightarrow> bool" where
  "stop_inv s \<longleftrightarrow>
     (case stop_call s of
        Not_stopping \<Rightarrow>
          (\<forall>i < length (thread_heap s).
             thread_is_alive (thread_heap s ! i) \<longrightarrow> i \<in> snd ` set (d_threads s))
      | Joining ts \<Rightarrow>
          stop_event s \<and>
          (\<forall>i < length (thread_heap s).
             thread_is_alive (thread_heap s ! i) \<longrightarrow> i \<in> set ts))"

text \<open>From \<open>s\<close> to \<open>s'\<close> every queue has only grown, by tasks that were put on it.\<close>

definition only_puts :: "'u system \<Rightarrow> 'u system \<Rightarrow> bool" where
  "only_puts s s' \<longleftrightarrow>
     (\<forall>q. \<exists>more. queue_heap s' q = queue_heap s q @ more \<and>
                 enqueued s' q = enqueued s q @ more)"

text \<open>Every queue is first in, first out: what was put on it is what was taken from it, followed by what is on it.\<close>

definition fifo_inv :: "'u system \<Rightarrow> bool" where
  "fifo_inv s \<longleftrightarrow> (\<forall>q. enqueued s q = dequeued s q @ queue_heap s q)"

text \<open>
  The thread \<open>i\<close> is the only reader of the queue \<open>q\<close>, and the tasks taken from \<open>q\<close>
  are, in this order, the tasks the thread has finished with and the task it is
  executing, if any.
\<close>

definition handles_in_order :: "nat \<Rightarrow> nat \<Rightarrow> 'u system \<Rightarrow> bool" where
  "handles_in_order i q s \<longleftrightarrow>
     sole_reader i q s \<and>
     dequeued s q = w_handled (thread_heap s ! i) @ in_flight (w_phase (thread_heap s ! i))"

text \<open>
  While a thread executes a task, its \<open>current_callback\<close> is the name of the
  callable and the \<^verbatim>\<open>pvname\<close> of the task.
\<close>

definition current_inv :: "'u worker \<Rightarrow> bool" where
  "current_inv w \<longleftrightarrow>
     (\<forall>c args kw. w_phase w = Executing (c, args, kw) \<longrightarrow>
        (\<exists>n. dunder_name c = Some n \<and>
             current_callback w = Some (n, kwargs_get kw ''pvname'')))"

subsection \<open>What executing a task does\<close>

text \<open>
  The effect on the shared state of calling a callable: the body of an ordinary
  callable runs, whether it returns or raises; the closure of \<open>wrap_callback\<close> only
  puts a task on a queue.
\<close>

fun callable_effect :: "'u callable \<Rightarrow> pyval list \<Rightarrow> kwargs \<Rightarrow> 'u \<Rightarrow> 'u" where
  "callable_effect (Fn n body) args kw u = snd (body args kw u)"
| "callable_effect (Wrapped q c) args kw u = u"

text \<open>
  The effect on the shared state of a thread finishing with a task: the call of
  its callable, or nothing when the callable has no name and is never called.
\<close>

definition task_effect :: "'u task \<Rightarrow> 'u \<Rightarrow> 'u" where
  "task_effect t u =
     (case t of (c, args, kw) \<Rightarrow>
        (case dunder_name c of None \<Rightarrow> u | Some n \<Rightarrow> callable_effect c args kw u))"

text \<open>
  An event that leaves the shared state to the thread \<open>i\<close>: a step of that thread,
  a producer calling a closure of \<open>wrap_callback\<close>, a utility task being
  scheduled, or a step of \<open>stop\<close>.
\<close>

fun quiet_for :: "nat \<Rightarrow> 'u event \<Rightarrow> bool" where
  "quiet_for i (Tick j) = (j = i)"
| "quiet_for i (Call c args kw) = wrapped_callback_attr c"
| "quiet_for i (Schedule_utility c args kw) = True"
| "quiet_for i Stop_begin = True"
| "quiet_for i Stop_step = True"

text \<open>
  The identity that \<open>run\<close> records for a task, the name of the callable and the
  \<^verbatim>\<open>pvname\<close>; none when the callable has no name.  And the identity recorded last
  over a list of tasks taken in this order.
\<close>

definition task_identity :: "'u task \<Rightarrow> (string \<times> pyval) option" where
  "task_identity t =
     (case t of (c, args, kw) \<Rightarrow>
        (case dunder_name c of None \<Rightarrow> None | Some n \<Rightarrow> Some (n, kwargs_get kw ''pvname'')))"

definition last_identity :: "'u task list \<Rightarrow> (string \<times> pyval) option" where
  "last_identity ts =
     fold (\<lambda>t cur. case task_identity t of None \<Rightarrow> cur | Some x \<Rightarrow> Some x) ts None"

text \<open>The tasks a thread has taken from its queue, in order.\<close>

definition taken :: "'u worker \<Rightarrow> 'u task list" where
  "taken w = w_handled w @ in_flight (w_phase w)"

subsection \<open>Callbacks and runs used as examples\<close>

text \<open>
  Three callbacks over a shared log of values: one appends its arguments, one
  raises \<^verbatim>\<open>ValueError\<close>, one raises \<^verbatim>\<open>SystemExit\<close> (as \<^verbatim>\<open>sys.exit()\<close> does).
\<close>

definition append_callback :: "pyval list callable" where
  "append_callback = Fn (Some ''append'') (\<lambda>args kw u. (Returns, u @ args))"

definition failing_callback :: "pyval list callable" where
  "failing_callback = Fn (Some ''failing'') (\<lambda>args kw u. (Raises (Exc ''ValueError''), u))"

definition exiting_callback :: "pyval list callable" where
  "exiting_callback = Fn (Some ''exiting'') (\<lambda>args kw u. (Raises (BaseExc ''SystemExit''), u))"

text \<open>A callable without \<^verbatim>\<open>__name__\<close>, such as a \<^verbatim>\<open>functools.partial\<close> object.\<close>

definition nameless_callback :: "pyval list callable" where
  "nameless_callback = Fn None (\<lambda>args kw u. (Returns, u @ args))"

text \<open>A dispatcher without utility threads, over an empty log.\<close>

definition example_dispatcher :: "pyval list system" where
  "example_dispatcher =
     EventDispatcher_init (PyOpaque ''ctx'') [] (PyOpaque ''0.1'') False 0 []"


text \<open>
  On \<^verbatim>\<open>monitor\<close>: one task that appends; the thread of \<^verbatim>\<open>monitor\<close> is scheduled until
  it has finished with the task and waits on its empty queue again.
\<close>

definition idle_run :: "pyval list system" where
  "idle_run =
     exec [Call (Wrapped 2 append_callback) [PyInt 5] [(''pvname'', PyStr ''pv1'')],
           Tick 1, Tick 1, Tick 1, Tick 1, Tick 1]
       example_dispatcher"



text \<open>
  On \<^verbatim>\<open>monitor\<close>: one task that appends; the thread of \<^verbatim>\<open>monitor\<close> is scheduled until
  it is about to take the task.
\<close>

definition take_run :: "pyval list system" where
  "take_run =
     exec [Call (Wrapped 2 append_callback) [PyInt 5] [(''pvname'', PyStr ''pv1'')],
           Tick 1, Tick 1]
       example_dispatcher"

text \<open>
  On \<^verbatim>\<open>monitor\<close>: three tasks that append their index, then three steps of the
  thread of \<^verbatim>\<open>monitor\<close>, a fourth task, and four more steps of the thread.
\<close>

definition fifo_run :: "pyval list system" where
  "fifo_run =
     exec [Call (Wrapped 2 append_callback) [PyInt 0] [],
           Call (Wrapped 2 append_callback) [PyInt 1] [],
           Call (Wrapped 2 append_callback) [PyInt 2] [],
           Tick 1, Tick 1, Tick 1,
           Call (Wrapped 2 append_callback) [PyInt 3] [],
           Tick 1, Tick 1, Tick 1, Tick 1]
       example_dispatcher"


text \<open>
  The shared state is what the callbacks of the tasks that the thread \<open>i\<close> has
  finished with make of the state \<open>u\<close>, one after the other.
\<close>

definition effect_inv :: "nat \<Rightarrow> 'u \<Rightarrow> 'u system \<Rightarrow> bool" where
  "effect_inv i u s \<longleftrightarrow>
     i < length (thread_heap s) \<and> current_inv (thread_heap s ! i) \<and>
     shared s = fold task_effect (w_handled (thread_heap s ! i)) u"

section \<open>Properties\<close>

declare run_step.simps [simp del]

subsection \<open>Names of the utility threads\<close>

lemma str_nat_nonempty: "str_nat n \<noteq> []" "[] \<noteq> str_nat n"
  by (subst str_nat.simps, simp)+

lemma digit_char_inj:
  assumes "a < 10" and "b < 10" and "digit_char a = digit_char b"
  shows "a = b"
proof -
  have "distinct ''0123456789''" by simp
  from nth_eq_iff_index_eq[OF this, of a b] assms show ?thesis
    by (simp add: digit_char_def)
qed

lemma str_nat_inj: "str_nat n = str_nat m \<Longrightarrow> n = m"
proof (induction n arbitrary: m rule: str_nat.induct)
  case (1 n)
  show ?case
  proof (cases "n < 10")
    case n: True
    show ?thesis
    proof (cases "m < 10")
      case True
      with n "1.prems" show ?thesis
        by (simp add: str_nat.simps[of n] str_nat.simps[of m] digit_char_inj)
    next
      case False
      with n "1.prems" show ?thesis
        by (simp add: str_nat.simps[of n] str_nat.simps[of m] str_nat_nonempty)
    qed
  next
    case n: False
    show ?thesis
    proof (cases "m < 10")
      case True
      with n "1.prems" show ?thesis
        by (simp add: str_nat.simps[of n] str_nat.simps[of m] str_nat_nonempty)
    next
      case False
      with n "1.prems" have e: "str_nat (n div 10) = str_nat (m div 10)"
        and d: "digit_char (n mod 10) = digit_char (m mod 10)"
        by (simp_all add: str_nat.simps[of n] str_nat.simps[of m])
      from "1.IH"[OF n e] have "n div 10 = m div 10" .
      moreover from d have "n mod 10 = m mod 10" by (intro digit_char_inj) simp_all
      ultimately show ?thesis by (metis div_mult_mod_eq)
    qed
  qed
qed

lemma distinct_utility_names: "distinct (utility_names n)"
  unfolding utility_names_def by (simp add: distinct_map inj_on_def str_nat_inj)

lemma named_not_utility:
  "''metadata'' \<notin> set (utility_names n)"
  "''monitor'' \<notin> set (utility_names n)"
  "''get_put'' \<notin> set (utility_names n)"
  unfolding utility_names_def by auto

lemma length_utility_names: "length (utility_names n) = nat n"
  by (simp add: utility_names_def)

subsection \<open>Construction\<close>

lemma dict_set_fresh: "k \<notin> fst ` set d \<Longrightarrow> dict_set d k v = d @ [(k, v)]"
  by (induction d) auto

lemma start_thread_shared:
  "start_thread name (Some q) s =
     s\<lparr>thread_heap := thread_heap s @ [fresh_worker name (d_context s) (d_timeout s) q],
       d_threads := dict_set (d_threads s) name (length (thread_heap s))\<rparr>"
  by (simp add: start_thread_def CallbackThread_init_def fresh_worker_def)

lemma start_thread_private:
  "start_thread name None s =
     s\<lparr>thread_heap :=
         thread_heap s @ [fresh_worker name (d_context s) (d_timeout s) (queue_count s)],
       d_threads := dict_set (d_threads s) name (length (thread_heap s)),
       queue_heap := (queue_heap s)(queue_count s := []),
       queue_count := Suc (queue_count s),
       enqueued := (enqueued s)(queue_count s := []),
       dequeued := (dequeued s)(queue_count s := [])\<rparr>"
  by (simp add: start_thread_def CallbackThread_init_def fresh_worker_def new_queue_def)

lemma fold_start_thread:
  "distinct names \<Longrightarrow> set names \<inter> fst ` set (d_threads s) = {} \<Longrightarrow>
   fold (\<lambda>name. start_thread name (Some q)) names s =
     s\<lparr>thread_heap :=
         thread_heap s @ map (\<lambda>n. fresh_worker n (d_context s) (d_timeout s) q) names,
       d_threads :=
         d_threads s @
         zip names [length (thread_heap s) ..< length (thread_heap s) + length names]\<rparr>"
proof (induction names arbitrary: s)
  case Nil
  show ?case by simp
next
  case (Cons n names)
  from Cons.prems have fresh: "n \<notin> fst ` set (d_threads s)" by auto
  let ?f = "\<lambda>name. start_thread name (Some q)"
  let ?s = "start_thread n (Some q) s"
  have eq: "?s = s\<lparr>thread_heap :=
                      thread_heap s @ [fresh_worker n (d_context s) (d_timeout s) q],
                    d_threads := d_threads s @ [(n, length (thread_heap s))]\<rparr>"
    by (simp add: start_thread_shared dict_set_fresh[OF fresh])
  have dj: "set names \<inter> fst ` set (d_threads ?s) = {}"
    using Cons.prems by (auto simp: eq)
  have ds: "distinct names" using Cons.prems by simp
  have "fold ?f (n # names) s = fold ?f names ?s" by simp
  also have "\<dots> =
     ?s\<lparr>thread_heap :=
          thread_heap ?s @ map (\<lambda>n. fresh_worker n (d_context ?s) (d_timeout ?s) q) names,
        d_threads :=
          d_threads ?s @
          zip names [length (thread_heap ?s) ..< length (thread_heap ?s) + length names]\<rparr>"
    by (rule Cons.IH[OF ds dj])
  also have "\<dots> =
     s\<lparr>thread_heap :=
         thread_heap s @ map (\<lambda>n. fresh_worker n (d_context s) (d_timeout s) q) (n # names),
       d_threads :=
         d_threads s @
         zip (n # names)
           [length (thread_heap s) ..< length (thread_heap s) + length (n # names)]\<rparr>"
    by (simp add: eq upt_conv_Cons del: upt_Suc)
  finally show ?case .
qed

lemma EventDispatcher_init_eq:
  "EventDispatcher_init context lg timeout dm n u =
     \<lparr>d_threads =
        zip (''metadata'' # ''monitor'' # ''get_put'' # utility_names n) [0 ..< 3 + nat n],
      d_timeout = timeout, stop_event = False, d_context = context,
      d_utility_threads = utility_names n, d_utility_queue = 0, d_debug_monitor = dm,
      thread_heap =
        fresh_worker ''metadata'' context timeout 1 #
        fresh_worker ''monitor'' context timeout 2 #
        fresh_worker ''get_put'' context timeout 3 #
        map (\<lambda>name. fresh_worker name context timeout 0) (utility_names n),
      queue_heap = (\<lambda>q. []), queue_count = 4, logger = lg, shared = u,
      stop_call = Not_stopping, enqueued = (\<lambda>q. []), dequeued = (\<lambda>q. [])\<rparr>"
proof -
  have f: "(\<lambda>q. [])(Suc 0 := [], Suc (Suc 0) := [], Suc (Suc (Suc 0)) := []) =
      (\<lambda>q::nat. ([] :: 'b task list))"
    by (rule ext) simp
  have z: "[0 ..< Suc (Suc (Suc k))] =
      0 # Suc 0 # Suc (Suc 0) # [Suc (Suc (Suc 0)) ..< Suc (Suc (Suc k))]" for k
    by (simp add: upt_conv_Cons del: upt_Suc)
  show ?thesis
    unfolding EventDispatcher_init_def Let_def
    by (subst fold_start_thread)
       (simp_all add: start_thread_private distinct_utility_names named_not_utility
          length_utility_names f z numeral_2_eq_2 numeral_3_eq_3 del: upt_Suc)
qed

lemma init_heap_nth:
  "thread_heap (EventDispatcher_init context lg timeout dm n u) ! 0 = fresh_worker ''metadata'' context timeout 1"
  "thread_heap (EventDispatcher_init context lg timeout dm n u) ! 1 = fresh_worker ''monitor'' context timeout 2"
  "thread_heap (EventDispatcher_init context lg timeout dm n u) ! 2 = fresh_worker ''get_put'' context timeout 3"
  "i < nat n \<Longrightarrow> thread_heap (EventDispatcher_init context lg timeout dm n u) ! (3 + i) =
      fresh_worker (''util'' @ str_nat i) context timeout 0"
  by (simp_all add: EventDispatcher_init_eq numeral_2_eq_2 numeral_3_eq_3 utility_names_def)

lemma init_map_of:
  "map_of (d_threads (EventDispatcher_init context lg timeout dm n u)) ''metadata'' = Some 0"
  "map_of (d_threads (EventDispatcher_init context lg timeout dm n u)) ''monitor'' = Some 1"
  "map_of (d_threads (EventDispatcher_init context lg timeout dm n u)) ''get_put'' = Some 2"
  by (simp_all add: EventDispatcher_init_eq numeral_3_eq_3 upt_conv_Cons del: upt_Suc)

lemma init_keys:
  "map fst (d_threads (EventDispatcher_init context lg timeout dm n u)) =
     ''metadata'' # ''monitor'' # ''get_put'' # utility_names n"
  by (simp add: EventDispatcher_init_eq length_utility_names)

lemma init_values:
  "map snd (d_threads (EventDispatcher_init context lg timeout dm n u)) = [0 ..< 3 + nat n]"
  by (simp add: EventDispatcher_init_eq length_utility_names)

lemma init_length:
  "length (thread_heap (EventDispatcher_init ctx lg timeout dm n u)) = 3 + nat n"
  by (simp add: EventDispatcher_init_eq length_utility_names)

lemma call_callable_frame:
  assumes "call_callable c args kw s = (r, s')"
  shows "d_threads s' = d_threads s" "stop_event s' = stop_event s" "stop_call s' = stop_call s"
    "thread_heap s' = thread_heap s" "logger s' = logger s" "dequeued s' = dequeued s"
  using assms by (cases c; auto simp: queue_put_def split: prod.splits)+

lemma call_callable_queues:
  assumes "call_callable c args kw s = (r, s')"
  shows "\<exists>more. queue_heap s' q = queue_heap s q @ more \<and> enqueued s' q = enqueued s q @ more"
  using assms by (cases c) (auto simp: queue_put_def split: prod.splits)

lemma run_step_frame:
  assumes "run_step w s = (w', s')"
  shows "d_threads s' = d_threads s" "stop_event s' = stop_event s" "stop_call s' = stop_call s"
    "thread_heap s' = thread_heap s" "w_queue w' = w_queue w" "w_name w' = w_name w"
proof -
  show "d_threads s' = d_threads s" "stop_event s' = stop_event s" "stop_call s' = stop_call s"
    "thread_heap s' = thread_heap s" "w_queue w' = w_queue w" "w_name w' = w_name w"
    using assms
    by (auto simp: run_step.simps log_append_def attach_context_def detach_context_def Let_def
        dest: call_callable_frame
        split: phase.splits list.splits option.splits prod.splits outcome.splits if_splits)
qed

lemma run_step_elim [consumes 1, case_names idle start exit poll timeout nameless take returned caught crashed]:
  assumes "run_step w s = (w', s')"
  obtains
    "\<not> phase_alive (w_phase w)" "w' = w" "s' = s"
  | "w_phase w = Started" "w' = w\<lparr>w_phase := Checking\<rparr>"
    "s' = log_append [Debug_started (w_name w), Debug_attaching (w_name w) (w_context w)] s"
  | "w_phase w = Checking" "stop_event s" "w' = w\<lparr>w_context := PyNone, w_phase := Finished\<rparr>"
    "s' = log_append [Debug_detaching (w_name w) (w_context w), Debug_exiting (w_name w)] s"
  | "w_phase w = Checking" "\<not> stop_event s" "w' = w\<lparr>w_phase := Polling\<rparr>" "s' = s"
  | "w_phase w = Polling" "queue_heap s (w_queue w) = []" "w' = w\<lparr>w_phase := Checking\<rparr>" "s' = s"
  | c args kw rest where "w_phase w = Polling" "queue_heap s (w_queue w) = (c, args, kw) # rest"
    "dunder_name c = None"
    "w' = w\<lparr>w_phase := Checking, w_handled := w_handled w @ [(c, args, kw)]\<rparr>"
    "s' = log_append [Exception_logged c (kwargs_get kw ''pvname'') (Exc ''AttributeError'')]
           (s\<lparr>queue_heap := (queue_heap s)(w_queue w := rest),
              dequeued := (dequeued s)(w_queue w := dequeued s (w_queue w) @ [(c, args, kw)])\<rparr>)"
  | c args kw rest n where "w_phase w = Polling" "queue_heap s (w_queue w) = (c, args, kw) # rest"
    "dunder_name c = Some n"
    "w' = w\<lparr>current_callback := Some (n, kwargs_get kw ''pvname''),
              w_phase := Executing (c, args, kw)\<rparr>"
    "s' = s\<lparr>queue_heap := (queue_heap s)(w_queue w := rest),
              dequeued := (dequeued s)(w_queue w := dequeued s (w_queue w) @ [(c, args, kw)])\<rparr>"
  | c args kw where "w_phase w = Executing (c, args, kw)"
    "call_callable c args kw s = (Returns, s')"
    "w' = w\<lparr>w_phase := Checking, w_handled := w_handled w @ [(c, args, kw)]\<rparr>"
  | c args kw ex s1 where "w_phase w = Executing (c, args, kw)"
    "call_callable c args kw s = (Raises ex, s1)" "is_Exception ex"
    "w' = w\<lparr>w_phase := Checking, w_handled := w_handled w @ [(c, args, kw)]\<rparr>"
    "s' = log_append [Exception_logged c (kwargs_get kw ''pvname'') ex] s1"
  | c args kw ex where "w_phase w = Executing (c, args, kw)"
    "call_callable c args kw s = (Raises ex, s')" "\<not> is_Exception ex"
    "w' = w\<lparr>w_phase := Crashed ex, w_handled := w_handled w @ [(c, args, kw)]\<rparr>"
proof (cases "w_phase w")
  case Created
  with assms have "w' = w" "s' = s" by (simp_all add: run_step.simps)
  with Created show ?thesis by (intro that(1)) simp_all
next
  case Started
  with assms have "w' = w\<lparr>w_phase := Checking\<rparr>"
    "s' = log_append [Debug_started (w_name w), Debug_attaching (w_name w) (w_context w)] s"
    by (auto simp: run_step.simps attach_context_def log_append_def)
  with Started show ?thesis by (intro that(2))
next
  case Checking
  show ?thesis
  proof (cases "stop_event s")
    case True
    with Checking assms have "w' = w\<lparr>w_context := PyNone, w_phase := Finished\<rparr>"
      "s' = log_append [Debug_detaching (w_name w) (w_context w), Debug_exiting (w_name w)] s"
      by (auto simp: run_step.simps detach_context_def log_append_def)
    with Checking True show ?thesis by (intro that(3))
  next
    case False
    with Checking assms have "w' = w\<lparr>w_phase := Polling\<rparr>" "s' = s"
      by (auto simp: run_step.simps)
    with Checking False show ?thesis by (intro that(4))
  qed
next
  case Polling
  show ?thesis
  proof (cases "queue_heap s (w_queue w)")
    case Nil
    with Polling assms have "w' = w\<lparr>w_phase := Checking\<rparr>" "s' = s"
      by (auto simp: run_step.simps)
    with Polling Nil show ?thesis by (intro that(5))
  next
    case (Cons t rest)
    obtain c args kw where t: "t = (c, args, kw)" by (cases t)
    show ?thesis
    proof (cases "dunder_name c")
      case None
      with Polling Cons t assms have
        "w' = w\<lparr>w_phase := Checking, w_handled := w_handled w @ [(c, args, kw)]\<rparr>"
        "s' = log_append [Exception_logged c (kwargs_get kw ''pvname'') (Exc ''AttributeError'')]
           (s\<lparr>queue_heap := (queue_heap s)(w_queue w := rest),
              dequeued := (dequeued s)(w_queue w := dequeued s (w_queue w) @ [(c, args, kw)])\<rparr>)"
        by (auto simp: run_step.simps Let_def)
      with Polling Cons t None show ?thesis by (intro that(6)[of c args kw rest]) simp_all
    next
      case (Some n)
      with Polling Cons t assms have
        "w' = w\<lparr>current_callback := Some (n, kwargs_get kw ''pvname''),
              w_phase := Executing (c, args, kw)\<rparr>"
        "s' = s\<lparr>queue_heap := (queue_heap s)(w_queue w := rest),
              dequeued := (dequeued s)(w_queue w := dequeued s (w_queue w) @ [(c, args, kw)])\<rparr>"
        by (auto simp: run_step.simps Let_def)
      with Polling Cons t Some show ?thesis by (intro that(7)[of c args kw rest n]) simp_all
    qed
  qed
next
  case (Executing t)
  obtain c args kw where t: "t = (c, args, kw)" by (cases t)
  obtain r s1 where cc: "call_callable c args kw s = (r, s1)" by (cases "call_callable c args kw s")
  show ?thesis
  proof (cases r)
    case Returns
    with Executing t cc assms have "s' = s1"
      "w' = w\<lparr>w_phase := Checking, w_handled := w_handled w @ [(c, args, kw)]\<rparr>"
      by (auto simp: run_step.simps)
    with Executing t cc Returns show ?thesis by (intro that(8)[of c args kw]) simp_all
  next
    case (Raises ex)
    show ?thesis
    proof (cases "is_Exception ex")
      case True
      with Raises Executing t cc assms have
        "w' = w\<lparr>w_phase := Checking, w_handled := w_handled w @ [(c, args, kw)]\<rparr>"
        "s' = log_append [Exception_logged c (kwargs_get kw ''pvname'') ex] s1"
        by (auto simp: run_step.simps)
      with Executing t cc Raises True show ?thesis
        by (intro that(9)[of c args kw ex s1]) simp_all
    next
      case False
      with Raises Executing t cc assms have "s' = s1"
        "w' = w\<lparr>w_phase := Crashed ex, w_handled := w_handled w @ [(c, args, kw)]\<rparr>"
        by (auto simp: run_step.simps)
      with Executing t cc Raises False show ?thesis
        by (intro that(10)[of c args kw ex]) simp_all
    qed
  qed
next
  case Finished
  with assms have "w' = w" "s' = s" by (simp_all add: run_step.simps)
  with Finished show ?thesis by (intro that(1)) simp_all
next
  case (Crashed ex)
  with assms have "w' = w" "s' = s" by (simp_all add: run_step.simps)
  with Crashed show ?thesis by (intro that(1)) simp_all
qed

lemma tick_out_of_range: "\<not> i < length (thread_heap s) \<Longrightarrow> tick i s = s"
  by (simp add: tick_def)

lemma tick_eq:
  assumes "i < length (thread_heap s)" and "run_step (thread_heap s ! i) s = (w', s')"
  shows "tick i s = s'\<lparr>thread_heap := (thread_heap s)[i := w']\<rparr>"
  using assms run_step_frame(4)[OF assms(2)] by (simp add: tick_def)

lemma tick_frame [simp]:
  "d_threads (tick i s) = d_threads s"
  "stop_event (tick i s) = stop_event s"
  "stop_call (tick i s) = stop_call s"
  "length (thread_heap (tick i s)) = length (thread_heap s)"
proof -
  obtain w' s' where r: "run_step (thread_heap s ! i) s = (w', s')"
    by (cases "run_step (thread_heap s ! i) s")
  note f = run_step_frame[OF r]
  show "d_threads (tick i s) = d_threads s" "stop_event (tick i s) = stop_event s"
    "stop_call (tick i s) = stop_call s"
    "length (thread_heap (tick i s)) = length (thread_heap s)"
    using f by (simp_all add: tick_def r)
qed

lemma tick_other: "j \<noteq> i \<Longrightarrow> thread_heap (tick i s) ! j = thread_heap s ! j"
proof -
  assume ne: "j \<noteq> i"
  obtain w' s' where r: "run_step (thread_heap s ! i) s = (w', s')"
    by (cases "run_step (thread_heap s ! i) s")
  from ne run_step_frame(4)[OF r] show ?thesis by (simp add: tick_def r)
qed

lemma tick_self:
  assumes "i < length (thread_heap s)"
  shows "thread_heap (tick i s) ! i = fst (run_step (thread_heap s ! i) s)"
proof -
  obtain w' s' where r: "run_step (thread_heap s ! i) s = (w', s')"
    by (cases "run_step (thread_heap s ! i) s")
  from assms show ?thesis by (simp add: tick_eq[OF assms r] r)
qed

lemma tick_w_queue [simp]: "w_queue (thread_heap (tick i s) ! j) = w_queue (thread_heap s ! j)"
proof (cases "j = i \<and> i < length (thread_heap s)")
  case True
  obtain w' s' where r: "run_step (thread_heap s ! i) s = (w', s')"
    by (cases "run_step (thread_heap s ! i) s")
  from True run_step_frame(5)[OF r] show ?thesis by (simp add: tick_self r)
next
  case False
  then show ?thesis by (cases "j = i") (simp_all add: tick_out_of_range tick_other)
qed

lemma run_step_dead: "\<not> phase_alive (w_phase w) \<Longrightarrow> run_step w s = (w, s)"
  by (cases "w_phase w") (simp_all add: run_step.simps)

lemma tick_dead:
  assumes "i < length (thread_heap s)" and "\<not> thread_is_alive (thread_heap s ! i)"
  shows "tick i s = s"
  using assms by (simp add: tick_def run_step_dead thread_is_alive_def)

lemma run_step_alive:
  assumes "run_step w s = (w', s')" and "phase_alive (w_phase w')"
  shows "phase_alive (w_phase w)"
  using assms by (cases rule: run_step_elim) auto

lemma tick_alive:
  assumes "thread_is_alive (thread_heap (tick i s) ! j)"
  shows "thread_is_alive (thread_heap s ! j)"
proof (cases "j = i \<and> i < length (thread_heap s)")
  case True
  obtain w' s' where r: "run_step (thread_heap s ! i) s = (w', s')"
    by (cases "run_step (thread_heap s ! i) s")
  from True assms have "phase_alive (w_phase w')"
    by (simp add: tick_self r thread_is_alive_def)
  from run_step_alive[OF r this] True show ?thesis by (simp add: thread_is_alive_def)
next
  case False
  with assms show ?thesis by (cases "j = i") (simp_all add: tick_out_of_range tick_other)
qed

lemma call_frame [simp]:
  "d_threads (snd (call_callable c args kw s)) = d_threads s"
  "stop_event (snd (call_callable c args kw s)) = stop_event s"
  "stop_call (snd (call_callable c args kw s)) = stop_call s"
  "thread_heap (snd (call_callable c args kw s)) = thread_heap s"
  "logger (snd (call_callable c args kw s)) = logger s"
  "dequeued (snd (call_callable c args kw s)) = dequeued s"
  by (cases c; simp add: queue_put_def split: prod.splits)+

lemma schedule_utility_frame [simp]:
  "d_threads (schedule_utility_task c args kw s) = d_threads s"
  "stop_event (schedule_utility_task c args kw s) = stop_event s"
  "stop_call (schedule_utility_task c args kw s) = stop_call s"
  "thread_heap (schedule_utility_task c args kw s) = thread_heap s"
  "logger (schedule_utility_task c args kw s) = logger s"
  "dequeued (schedule_utility_task c args kw s) = dequeued s"
  "shared (schedule_utility_task c args kw s) = shared s"
  by (simp_all add: schedule_utility_task_def queue_put_def)

lemma stop_frame [simp]:
  "thread_heap (stop_begin s) = thread_heap s"
  "thread_heap (stop_step s) = thread_heap s"
  "queue_heap (stop_begin s) = queue_heap s"
  "queue_heap (stop_step s) = queue_heap s"
  "enqueued (stop_begin s) = enqueued s"
  "enqueued (stop_step s) = enqueued s"
  "dequeued (stop_begin s) = dequeued s"
  "dequeued (stop_step s) = dequeued s"
  "shared (stop_begin s) = shared s"
  "shared (stop_step s) = shared s"
  "logger (stop_begin s) = logger s"
  "logger (stop_step s) = logger s"
  "d_threads (stop_begin s) = d_threads s"
  by (simp_all add: stop_begin_def stop_step_def split: stop_pc.splits list.splits)

lemma step_length [simp]: "length (thread_heap (step e s)) = length (thread_heap s)"
  by (cases e) simp_all

lemma step_w_queue [simp]: "w_queue (thread_heap (step e s) ! j) = w_queue (thread_heap s ! j)"
  by (cases e) simp_all

lemma step_stop_event: "stop_event s \<Longrightarrow> stop_event (step e s)"
  by (cases e) (simp_all add: stop_begin_def stop_step_def split: stop_pc.splits list.splits)

lemma step_d_threads: "d_threads (step e s) = d_threads s \<or> d_threads (step e s) = []"
  by (cases e) (simp_all add: stop_step_def split: stop_pc.splits list.splits)

lemma step_alive:
  "thread_is_alive (thread_heap (step e s) ! j) \<Longrightarrow> thread_is_alive (thread_heap s ! j)"
  by (cases e) (simp_all add: tick_alive)

lemma exec_Nil [simp]: "exec [] s = s"
  by (simp add: exec_def)

lemma exec_Cons [simp]: "exec (e # evs) s = exec evs (step e s)"
  by (simp add: exec_def)


lemma exec_length [simp]: "length (thread_heap (exec evs s)) = length (thread_heap s)"
  by (induction evs arbitrary: s) simp_all

lemma exec_w_queue [simp]: "w_queue (thread_heap (exec evs s) ! j) = w_queue (thread_heap s ! j)"
  by (induction evs arbitrary: s) simp_all

lemma exec_stop_event: "stop_event s \<Longrightarrow> stop_event (exec evs s)"
  by (induction evs arbitrary: s) (simp_all add: step_stop_event)

lemma exec_d_threads: "d_threads (exec evs s) = d_threads s \<or> d_threads (exec evs s) = []"
proof (induction evs arbitrary: s)
  case Nil
  show ?case by simp
next
  case (Cons e evs)
  from Cons.IH[of "step e s"] step_d_threads[of e s] show ?case by auto
qed

subsection \<open>The protocol of \<open>stop\<close>\<close>

lemma stop_inv_step: "stop_inv s \<Longrightarrow> stop_inv (step e s)"
proof (cases e)
  case (Tick i)
  assume "stop_inv s"
  with Tick show ?thesis
    by (auto simp: stop_inv_def dest: tick_alive split: stop_pc.splits)
next
  case (Call c args kw)
  assume "stop_inv s"
  with Call show ?thesis by (simp add: stop_inv_def split: stop_pc.splits)
next
  case (Schedule_utility c args kw)
  assume "stop_inv s"
  with Schedule_utility show ?thesis by (simp add: stop_inv_def split: stop_pc.splits)
next
  case Stop_begin
  assume "stop_inv s"
  with Stop_begin show ?thesis
    by (auto simp: stop_inv_def stop_begin_def split: stop_pc.splits)
next
  case Stop_step
  assume "stop_inv s"
  with Stop_step show ?thesis
    by (auto simp: stop_inv_def stop_step_def split: stop_pc.splits list.splits)
qed

lemma stop_inv_exec: "stop_inv s \<Longrightarrow> stop_inv (exec evs s)"
  by (induction evs arbitrary: s) (simp_all add: stop_inv_step)

lemma stop_inv_init: "stop_inv (EventDispatcher_init ctx lg timeout dm n u)"
proof -
  have "snd ` set (d_threads (EventDispatcher_init ctx lg timeout dm n u)) = {0 ..< 3 + nat n}"
    using init_values[of ctx lg timeout dm n u] by (metis set_map set_upt)
  moreover have "length (thread_heap (EventDispatcher_init ctx lg timeout dm n u)) = 3 + nat n"
    by (simp add: EventDispatcher_init_eq length_utility_names)
  moreover have "stop_call (EventDispatcher_init ctx lg timeout dm n u) = Not_stopping"
    by (simp add: EventDispatcher_init_eq)
  ultimately show ?thesis by (simp add: stop_inv_def)
qed

lemma joined_all_dead:
  assumes "stop_inv s" and "stop_call s = Joining []"
  shows "all_dead s" and "stop_event s"
  using assms by (auto simp: stop_inv_def all_dead_def in_set_conv_nth)

lemma only_puts_refl: "only_puts s s"
  by (simp add: only_puts_def)

lemma only_puts_trans: "only_puts s s' \<Longrightarrow> only_puts s' s'' \<Longrightarrow> only_puts s s''"
  unfolding only_puts_def
proof
  fix q
  assume a: "\<forall>q. \<exists>more. queue_heap s' q = queue_heap s q @ more \<and> enqueued s' q = enqueued s q @ more"
    and b: "\<forall>q. \<exists>more. queue_heap s'' q = queue_heap s' q @ more \<and> enqueued s'' q = enqueued s' q @ more"
  from a obtain m1 where m1: "queue_heap s' q = queue_heap s q @ m1" "enqueued s' q = enqueued s q @ m1"
    by blast
  from b obtain m2 where m2: "queue_heap s'' q = queue_heap s' q @ m2" "enqueued s'' q = enqueued s' q @ m2"
    by blast
  from m1 m2 have "queue_heap s'' q = queue_heap s q @ (m1 @ m2) \<and> enqueued s'' q = enqueued s q @ (m1 @ m2)"
    by simp
  then show "\<exists>more. queue_heap s'' q = queue_heap s q @ more \<and> enqueued s'' q = enqueued s q @ more"
    by blast
qed

lemma only_puts_call: "only_puts s (snd (call_callable c args kw s))"
  unfolding only_puts_def
  using call_callable_queues[of c args kw s "fst (call_callable c args kw s)" "snd (call_callable c args kw s)"]
  by simp

lemma only_puts_schedule: "only_puts s (schedule_utility_task c args kw s)"
  by (simp add: only_puts_def schedule_utility_task_def queue_put_def)

lemma frozen_step:
  assumes "all_dead s"
  shows "thread_heap (step e s) = thread_heap s" "dequeued (step e s) = dequeued s"
    "only_puts s (step e s)"
proof -
  have t: "tick i s = s" for i
    using assms by (cases "i < length (thread_heap s)")
      (simp_all add: tick_dead tick_out_of_range all_dead_def)
  show "thread_heap (step e s) = thread_heap s" by (cases e) (simp_all add: t)
  show "dequeued (step e s) = dequeued s" by (cases e) (simp_all add: t)
  have "only_puts s (stop_begin s)" "only_puts s (stop_step s)"
    by (simp_all add: only_puts_def)
  then show "only_puts s (step e s)"
    by (cases e) (simp_all add: t only_puts_refl only_puts_call only_puts_schedule)
qed

lemma frozen_exec:
  assumes "all_dead s"
  shows "thread_heap (exec evs s) = thread_heap s \<and> dequeued (exec evs s) = dequeued s \<and>
    only_puts s (exec evs s)"
  using assms
proof (induction evs arbitrary: s)
  case Nil
  show ?case by (simp add: only_puts_refl)
next
  case (Cons e evs)
  note f = frozen_step[OF Cons.prems, of e]
  from f(1) Cons.prems have "all_dead (step e s)" by (simp add: all_dead_def)
  from Cons.IH[OF this] f show ?case by (auto intro: only_puts_trans)
qed

subsection \<open>Order of the tasks\<close>

lemma run_step_dequeued_other:
  assumes "run_step w s = (w', s')" and "w_queue w \<noteq> q"
  shows "dequeued s' q = dequeued s q"
  using assms
  by (cases rule: run_step_elim) (auto simp: log_append_def dest: call_callable_frame(6))

lemma tick_dequeued_other:
  assumes "w_queue (thread_heap s ! i) \<noteq> q"
  shows "dequeued (tick i s) q = dequeued s q"
proof (cases "i < length (thread_heap s)")
  case True
  obtain w' s' where r: "run_step (thread_heap s ! i) s = (w', s')"
    by (cases "run_step (thread_heap s ! i) s")
  from run_step_dequeued_other[OF r assms] show ?thesis by (simp add: tick_eq[OF True r])
next
  case False
  then show ?thesis by (simp add: tick_out_of_range)
qed

lemma run_step_fifo_all:
  assumes "run_step w s = (w', s')" and "enqueued s q = dequeued s q @ queue_heap s q"
  shows "enqueued s' q = dequeued s' q @ queue_heap s' q"
  using assms
proof (cases rule: run_step_elim)
  case (returned c args kw)
  from call_callable_queues[OF returned(2), of q] call_callable_frame(6)[OF returned(2)] assms(2)
  show ?thesis by auto
next
  case (caught c args kw ex s1)
  from call_callable_queues[OF caught(2), of q] call_callable_frame(6)[OF caught(2)] assms(2) caught(5)
  show ?thesis by (auto simp: log_append_def)
next
  case (crashed c args kw ex)
  from call_callable_queues[OF crashed(2), of q] call_callable_frame(6)[OF crashed(2)] assms(2)
  show ?thesis by auto
qed (auto simp: log_append_def)

lemma run_step_handled:
  assumes "run_step w s = (w', s')"
    and "dequeued s (w_queue w) = w_handled w @ in_flight (w_phase w)"
  shows "dequeued s' (w_queue w) = w_handled w' @ in_flight (w_phase w')"
  using assms
proof (cases rule: run_step_elim)
  case idle
  with assms(2) show ?thesis by simp
next
  case (returned c args kw)
  with call_callable_frame(6)[OF returned(2)] assms(2) show ?thesis by simp
next
  case (caught c args kw ex s1)
  with call_callable_frame(6)[OF caught(2)] assms(2) show ?thesis by (simp add: log_append_def)
next
  case (crashed c args kw ex)
  with call_callable_frame(6)[OF crashed(2)] assms(2) show ?thesis by simp
qed (auto simp: log_append_def)

lemma fifo_inv_step: "fifo_inv s \<Longrightarrow> fifo_inv (step e s)"
proof (cases e)
  case (Tick i)
  assume a: "fifo_inv s"
  show ?thesis
  proof (cases "i < length (thread_heap s)")
    case True
    obtain w' s' where r: "run_step (thread_heap s ! i) s = (w', s')"
      by (cases "run_step (thread_heap s ! i) s")
    from a have "enqueued s' q = dequeued s' q @ queue_heap s' q" for q
      by (intro run_step_fifo_all[OF r]) (simp add: fifo_inv_def)
    then show ?thesis by (simp add: Tick tick_eq[OF True r] fifo_inv_def)
  next
    case False
    with a show ?thesis by (simp add: Tick tick_out_of_range)
  qed
next
  case (Call c args kw)
  assume a: "fifo_inv s"
  have "enqueued (snd (call_callable c args kw s)) q =
      dequeued (snd (call_callable c args kw s)) q @ queue_heap (snd (call_callable c args kw s)) q" for q
  proof -
    from only_puts_call[of s c args kw] obtain more where
      "queue_heap (snd (call_callable c args kw s)) q = queue_heap s q @ more"
      "enqueued (snd (call_callable c args kw s)) q = enqueued s q @ more"
      unfolding only_puts_def by blast
    moreover from a have "enqueued s q = dequeued s q @ queue_heap s q"
      by (simp add: fifo_inv_def)
    ultimately show ?thesis by simp
  qed
  then show ?thesis by (simp add: Call fifo_inv_def)
next
  case (Schedule_utility c args kw)
  assume "fifo_inv s"
  then show ?thesis
    by (simp add: Schedule_utility fifo_inv_def schedule_utility_task_def queue_put_def)
next
  case Stop_begin
  assume "fifo_inv s"
  then show ?thesis by (simp add: Stop_begin fifo_inv_def)
next
  case Stop_step
  assume "fifo_inv s"
  then show ?thesis by (simp add: Stop_step fifo_inv_def)
qed

lemma fifo_inv_exec: "fifo_inv s \<Longrightarrow> fifo_inv (exec evs s)"
  by (induction evs arbitrary: s) (simp_all add: fifo_inv_step)

lemma sole_reader_step [simp]: "sole_reader i q (step e s) = sole_reader i q s"
  by (simp add: sole_reader_def)

lemma handles_in_order_step:
  assumes "handles_in_order i q s"
  shows "handles_in_order i q (step e s)"
proof -
  from assms have sr: "sole_reader i q s"
    and d: "dequeued s q = w_handled (thread_heap s ! i) @ in_flight (w_phase (thread_heap s ! i))"
    by (simp_all add: handles_in_order_def)
  from sr have i: "i < length (thread_heap s)" and qi: "w_queue (thread_heap s ! i) = q"
    by (simp_all add: sole_reader_def)
  have "dequeued (step e s) q =
      w_handled (thread_heap (step e s) ! i) @ in_flight (w_phase (thread_heap (step e s) ! i))"
  proof (cases e)
    case (Tick j)
    show ?thesis
    proof (cases "j = i")
      case True
      obtain w' s' where r: "run_step (thread_heap s ! i) s = (w', s')"
        by (cases "run_step (thread_heap s ! i) s")
      from run_step_handled[OF r] d qi
      have "dequeued s' q = w_handled w' @ in_flight (w_phase w')" by simp
      with i show ?thesis by (simp add: Tick True tick_eq[OF i r])
    next
      case False
      show ?thesis
      proof (cases "j < length (thread_heap s)")
        case jl: True
        with sr False have "w_queue (thread_heap s ! j) \<noteq> q" by (simp add: sole_reader_def)
        from tick_dequeued_other[OF this] False d show ?thesis
          by (simp add: Tick tick_other)
      next
        case False
        with d show ?thesis by (simp add: Tick tick_out_of_range)
      qed
    qed
  qed (simp_all add: d)
  with sr show ?thesis by (simp add: handles_in_order_def)
qed

lemma handles_in_order_exec: "handles_in_order i q s \<Longrightarrow> handles_in_order i q (exec evs s)"
  by (induction evs arbitrary: s) (simp_all add: handles_in_order_step)

lemma init_w_queue:
  assumes "j < 3 + nat n"
  shows "w_queue (thread_heap (EventDispatcher_init ctx lg timeout dm n u) ! j) =
    (if j < 3 then Suc j else 0)"
proof -
  consider "j = 0" | "j = Suc 0" | "j = Suc (Suc 0)" | k where "j = 3 + k" "k < nat n"
  proof -
    have "j = 0 \<or> j = Suc 0 \<or> j = Suc (Suc 0) \<or> 3 \<le> j" by linarith
    moreover have "\<exists>k. j = 3 + k \<and> k < nat n" if "3 \<le> j"
      using that assms by (intro exI[of _ "j - 3"]) simp
    ultimately show ?thesis using that by blast
  qed
  then show ?thesis
  proof cases
    case 1
    then show ?thesis by (simp add: EventDispatcher_init_eq fresh_worker_def)
  next
    case 2
    then show ?thesis by (simp add: EventDispatcher_init_eq fresh_worker_def)
  next
    case 3
    then show ?thesis by (simp add: EventDispatcher_init_eq fresh_worker_def numeral_2_eq_2)
  next
    case 4
    then show ?thesis by (simp add: init_heap_nth(4) fresh_worker_def)
  qed
qed

lemma init_fresh:
  assumes "j < 3 + nat n"
  shows "w_handled (thread_heap (EventDispatcher_init ctx lg timeout dm n u) ! j) = []"
    and "w_phase (thread_heap (EventDispatcher_init ctx lg timeout dm n u) ! j) = Started"
    and "current_callback (thread_heap (EventDispatcher_init ctx lg timeout dm n u) ! j) = None"
proof -
  let ?s = "EventDispatcher_init ctx lg timeout dm n u"
  from assms have "thread_heap ?s ! j \<in> set (thread_heap ?s)"
    by (intro nth_mem) (simp add: init_length)
  then have "\<exists>name q. thread_heap ?s ! j = fresh_worker name ctx timeout q"
    by (auto simp: EventDispatcher_init_eq)
  then show "w_handled (thread_heap ?s ! j) = []" "w_phase (thread_heap ?s ! j) = Started"
    "current_callback (thread_heap ?s ! j) = None"
    by (auto simp: fresh_worker_def)
qed

lemma init_fifo_inv: "fifo_inv (EventDispatcher_init ctx lg timeout dm n u)"
  by (simp add: fifo_inv_def EventDispatcher_init_eq)

lemma init_sole_reader:
  assumes "i < 3"
  shows "sole_reader i (Suc i) (EventDispatcher_init ctx lg timeout dm n u)"
  unfolding sole_reader_def
proof (intro conjI allI impI)
  show "i < length (thread_heap (EventDispatcher_init ctx lg timeout dm n u))"
    using assms by (simp add: init_length)
  show "w_queue (thread_heap (EventDispatcher_init ctx lg timeout dm n u) ! i) = Suc i"
    using assms by (simp add: init_w_queue)
  fix j
  assume "j < length (thread_heap (EventDispatcher_init ctx lg timeout dm n u))" "j \<noteq> i"
  then show "w_queue (thread_heap (EventDispatcher_init ctx lg timeout dm n u) ! j) \<noteq> Suc i"
    by (simp add: init_length init_w_queue)
qed

lemma init_handles_in_order:
  assumes "i < 3"
  shows "handles_in_order i (Suc i) (EventDispatcher_init ctx lg timeout dm n u)"
proof -
  let ?s = "EventDispatcher_init ctx lg timeout dm n u"
  from assms have i: "i < 3 + nat n" by simp
  have "w_handled (thread_heap ?s ! i) = []" by (rule init_fresh(1)[OF i])
  moreover have "w_phase (thread_heap ?s ! i) = Started" by (rule init_fresh(2)[OF i])
  then have "in_flight (w_phase (thread_heap ?s ! i)) = []" by simp
  moreover have "dequeued ?s (Suc i) = []" by (simp add: EventDispatcher_init_eq)
  ultimately show ?thesis using init_sole_reader[OF assms] by (simp add: handles_in_order_def)
qed

lemma init_utility_handles_in_order:
  "handles_in_order 3 0 (EventDispatcher_init ctx lg timeout dm 1 u)"
proof -
  let ?s = "EventDispatcher_init ctx lg timeout dm 1 u"
  have l: "length (thread_heap ?s) = 4" by (simp add: init_length)
  have q: "w_queue (thread_heap ?s ! j) = (if j < 3 then Suc j else 0)" if "j < 4" for j
    using that by (intro init_w_queue) simp
  have sr: "sole_reader 3 0 ?s"
    unfolding sole_reader_def l
  proof (intro conjI allI impI)
    show "(3::nat) < 4" by simp
    show "w_queue (thread_heap ?s ! 3) = 0" by (simp add: q)
    fix j :: nat
    assume "j < 4" "j \<noteq> 3"
    then show "w_queue (thread_heap ?s ! j) \<noteq> 0" by (simp add: q)
  qed
  have i: "(3::nat) < 3 + nat 1" by simp
  have "w_handled (thread_heap ?s ! 3) = []" by (rule init_fresh(1)[OF i])
  moreover have "w_phase (thread_heap ?s ! 3) = Started" by (rule init_fresh(2)[OF i])
  then have "in_flight (w_phase (thread_heap ?s ! 3)) = []" by simp
  moreover have "dequeued ?s 0 = []" by (simp add: EventDispatcher_init_eq)
  ultimately show ?thesis using sr by (simp add: handles_in_order_def)
qed

subsection \<open>The steps of one thread\<close>



lemma tick_Polling_take:
  assumes "i < length (thread_heap s)" "w_phase (thread_heap s ! i) = Polling"
    "queue_heap s (w_queue (thread_heap s ! i)) = (c, args, kw) # rest" "dunder_name c = Some n"
  shows "tick i s =
    s\<lparr>queue_heap := (queue_heap s)(w_queue (thread_heap s ! i) := rest),
      dequeued := (dequeued s)(w_queue (thread_heap s ! i) :=
        dequeued s (w_queue (thread_heap s ! i)) @ [(c, args, kw)]),
      thread_heap := (thread_heap s)[i := (thread_heap s ! i)
        \<lparr>current_callback := Some (n, kwargs_get kw ''pvname''),
          w_phase := Executing (c, args, kw)\<rparr>]\<rparr>"
  using assms by (simp add: tick_def run_step.simps)



lemma tick_Executing_crashed:
  assumes "i < length (thread_heap s)" "w_phase (thread_heap s ! i) = Executing (c, args, kw)"
    "call_callable c args kw s = (Raises ex, s1)" "\<not> is_Exception ex"
  shows "tick i s =
    s1\<lparr>thread_heap := (thread_heap s)[i := (thread_heap s ! i)
        \<lparr>w_phase := Crashed ex, w_handled := w_handled (thread_heap s ! i) @ [(c, args, kw)]\<rparr>]\<rparr>"
  using assms call_callable_frame(4)[OF assms(3)] by (simp add: tick_def run_step.simps)






subsection \<open>The current callback\<close>

lemma run_step_current_inv:
  assumes "run_step w s = (w', s')" and "current_inv w"
  shows "current_inv w'"
  using assms by (cases rule: run_step_elim) (auto simp: current_inv_def)

lemma run_step_current_kept:
  assumes "run_step w s = (w', s')" and "current_callback w \<noteq> None"
  shows "current_callback w' \<noteq> None"
  using assms by (cases rule: run_step_elim) auto

lemma step_current_inv:
  assumes "\<forall>i < length (thread_heap s). current_inv (thread_heap s ! i)"
  shows "\<forall>i < length (thread_heap (step e s)). current_inv (thread_heap (step e s) ! i)"
proof (cases e)
  case (Tick j)
  show ?thesis
  proof (intro allI impI)
    fix i
    assume "i < length (thread_heap (step e s))"
    then have i: "i < length (thread_heap s)" by simp
    show "current_inv (thread_heap (step e s) ! i)"
    proof (cases "i = j")
      case True
      obtain w' s' where r: "run_step (thread_heap s ! j) s = (w', s')"
        by (cases "run_step (thread_heap s ! j) s")
      from assms i True have "current_inv (thread_heap s ! j)" by simp
      from run_step_current_inv[OF r this] i True show ?thesis
        by (simp add: Tick tick_self r)
    next
      case False
      with assms i show ?thesis by (simp add: Tick tick_other)
    qed
  qed
qed (use assms in simp_all)

lemma exec_current_inv:
  assumes "\<forall>i < length (thread_heap s). current_inv (thread_heap s ! i)"
  shows "\<forall>i < length (thread_heap (exec evs s)). current_inv (thread_heap (exec evs s) ! i)"
  using assms
proof (induction evs arbitrary: s)
  case Nil
  then show ?case by simp
next
  case (Cons e evs)
  from Cons.IH[OF step_current_inv[OF Cons.prems]] show ?case by simp
qed

lemma step_current_kept:
  assumes "current_callback (thread_heap s ! j) \<noteq> None"
  shows "current_callback (thread_heap (step e s) ! j) \<noteq> None"
proof (cases e)
  case (Tick i)
  show ?thesis
  proof (cases "j = i \<and> i < length (thread_heap s)")
    case True
    obtain w' s' where r: "run_step (thread_heap s ! i) s = (w', s')"
      by (cases "run_step (thread_heap s ! i) s")
    from assms True have "current_callback (thread_heap s ! i) \<noteq> None" by simp
    from run_step_current_kept[OF r this] True show ?thesis
      by (simp add: Tick tick_self r)
  next
    case False
    with assms show ?thesis
      by (cases "j = i") (simp_all add: Tick tick_out_of_range tick_other)
  qed
qed (use assms in simp_all)

lemma last_identity_Nil [simp]: "last_identity [] = None"
  by (simp add: last_identity_def)

lemma last_identity_snoc:
  "last_identity (ts @ [t]) =
     (case task_identity t of None \<Rightarrow> last_identity ts | Some x \<Rightarrow> Some x)"
  by (simp add: last_identity_def split: option.splits)

lemma run_step_identity:
  assumes "run_step w s = (w', s')" and "current_callback w = last_identity (taken w)"
  shows "current_callback w' = last_identity (taken w')"
  using assms
  by (cases rule: run_step_elim)
     (auto simp: taken_def last_identity_snoc task_identity_def)

lemma run_step_current_same:
  assumes "run_step w s = (w', s')"
    and "w_phase w \<noteq> Polling \<or>
      (case queue_heap s (w_queue w) of [] \<Rightarrow> True | (c, args, kw) # rest \<Rightarrow> dunder_name c = None)"
  shows "current_callback w' = current_callback w"
  using assms by (cases rule: run_step_elim) auto

lemma step_identity:
  assumes "\<forall>i < length (thread_heap s).
      current_callback (thread_heap s ! i) = last_identity (taken (thread_heap s ! i))"
  shows "\<forall>i < length (thread_heap (step e s)).
      current_callback (thread_heap (step e s) ! i) = last_identity (taken (thread_heap (step e s) ! i))"
proof (cases e)
  case (Tick j)
  show ?thesis
  proof (intro allI impI)
    fix i
    assume "i < length (thread_heap (step e s))"
    then have i: "i < length (thread_heap s)" by simp
    show "current_callback (thread_heap (step e s) ! i) =
        last_identity (taken (thread_heap (step e s) ! i))"
    proof (cases "i = j")
      case True
      obtain w' s' where r: "run_step (thread_heap s ! j) s = (w', s')"
        by (cases "run_step (thread_heap s ! j) s")
      from assms i True
      have "current_callback (thread_heap s ! j) = last_identity (taken (thread_heap s ! j))"
        by simp
      from run_step_identity[OF r this] i True show ?thesis
        by (simp add: Tick tick_self r)
    next
      case False
      with assms i show ?thesis by (simp add: Tick tick_other)
    qed
  qed
qed (use assms in simp_all)

lemma exec_identity:
  assumes "\<forall>i < length (thread_heap s).
      current_callback (thread_heap s ! i) = last_identity (taken (thread_heap s ! i))"
  shows "\<forall>i < length (thread_heap (exec evs s)).
      current_callback (thread_heap (exec evs s) ! i) =
        last_identity (taken (thread_heap (exec evs s) ! i))"
  using assms
proof (induction evs arbitrary: s)
  case Nil
  then show ?case by simp
next
  case (Cons e evs)
  from Cons.IH[OF step_identity[OF Cons.prems]] show ?case by simp
qed

lemma step_current_same:
  assumes "e \<noteq> Tick j \<or> w_phase (thread_heap t ! j) \<noteq> Polling \<or>
      (case queue_heap t (w_queue (thread_heap t ! j)) of [] \<Rightarrow> True
       | (c, args, kw) # rest \<Rightarrow> dunder_name c = None)"
  shows "current_callback (thread_heap (step e t) ! j) = current_callback (thread_heap t ! j)"
proof (cases e)
  case (Tick i)
  show ?thesis
  proof (cases "j = i \<and> i < length (thread_heap t)")
    case True
    obtain w' s' where r: "run_step (thread_heap t ! i) t = (w', s')"
      by (cases "run_step (thread_heap t ! i) t")
    from assms True Tick have "w_phase (thread_heap t ! i) \<noteq> Polling \<or>
      (case queue_heap t (w_queue (thread_heap t ! i)) of [] \<Rightarrow> True
       | (c, args, kw) # rest \<Rightarrow> dunder_name c = None)" by simp
    from run_step_current_same[OF r this] True show ?thesis
      by (simp add: Tick tick_self r)
  next
    case False
    then show ?thesis
      by (cases "j = i") (simp_all add: Tick tick_out_of_range tick_other)
  qed
qed simp_all

subsection \<open>The effect of the tasks\<close>

lemma call_shared:
  "shared (snd (call_callable c args kw s)) = callable_effect c args kw (shared s)"
  by (cases c) (simp_all add: queue_put_def split: prod.splits)

lemma task_effect_named:
  "dunder_name c = Some n \<Longrightarrow> task_effect (c, args, kw) u = callable_effect c args kw u"
  by (simp add: task_effect_def)

lemma task_effect_nameless: "dunder_name c = None \<Longrightarrow> task_effect (c, args, kw) u = u"
  by (simp add: task_effect_def)

lemma run_step_effect:
  assumes "run_step w s = (w', s')" and "current_inv w"
    and "shared s = fold task_effect (w_handled w) u"
  shows "shared s' = fold task_effect (w_handled w') u"
  using assms(1)
proof (cases rule: run_step_elim)
  case (nameless c args kw rest)
  with assms(3) show ?thesis by (simp add: log_append_def task_effect_nameless)
next
  case (returned c args kw)
  from assms(2) returned(1) obtain n where n: "dunder_name c = Some n"
    by (auto simp: current_inv_def)
  from call_shared[of c args kw s] returned(2)
  have "shared s' = callable_effect c args kw (shared s)" by simp
  with returned(3) assms(3) n show ?thesis by (simp add: task_effect_named)
next
  case (caught c args kw ex s1)
  from assms(2) caught(1) obtain n where n: "dunder_name c = Some n"
    by (auto simp: current_inv_def)
  from call_shared[of c args kw s] caught(2)
  have "shared s1 = callable_effect c args kw (shared s)" by simp
  with caught(4,5) assms(3) n show ?thesis by (simp add: task_effect_named log_append_def)
next
  case (crashed c args kw ex)
  from assms(2) crashed(1) obtain n where n: "dunder_name c = Some n"
    by (auto simp: current_inv_def)
  from call_shared[of c args kw s] crashed(2)
  have "shared s' = callable_effect c args kw (shared s)" by simp
  with crashed(4) assms(3) n show ?thesis by (simp add: task_effect_named)
qed (use assms(3) in \<open>simp_all add: log_append_def\<close>)

lemma run_step_calls:
  assumes "run_step w s = (w', s')" and "w_phase w = Executing (c, args, kw)"
  shows "shared s' = shared (snd (call_callable c args kw s))"
    and "queue_heap s' = queue_heap (snd (call_callable c args kw s))"
    and "w_handled w' = w_handled w @ [(c, args, kw)]"
  using assms by (cases rule: run_step_elim; simp add: log_append_def)+

lemma run_step_shared_idle:
  assumes "run_step w s = (w', s')" and "\<forall>task. w_phase w \<noteq> Executing task"
  shows "shared s' = shared s"
  using assms by (cases rule: run_step_elim) (simp_all add: log_append_def)

lemma effect_inv_step:
  assumes "effect_inv i u s" and "quiet_for i e"
  shows "effect_inv i u (step e s)"
proof (cases e)
  case (Tick j)
  with assms(2) have j: "j = i" by simp
  from assms(1) have i: "i < length (thread_heap s)"
    and c: "current_inv (thread_heap s ! i)"
    and f: "shared s = fold task_effect (w_handled (thread_heap s ! i)) u"
    by (simp_all add: effect_inv_def)
  obtain w' s' where r: "run_step (thread_heap s ! i) s = (w', s')"
    by (cases "run_step (thread_heap s ! i) s")
  from run_step_effect[OF r c f] run_step_current_inv[OF r c] i show ?thesis
    by (simp add: Tick j tick_eq[OF i r] effect_inv_def)
next
  case (Call c args kw)
  with assms(2) obtain q c' where "c = Wrapped q c'" by (cases c) simp_all
  with assms(1) show ?thesis by (simp add: Call effect_inv_def queue_put_def)
next
  case (Schedule_utility c args kw)
  with assms(1) show ?thesis by (simp add: effect_inv_def)
next
  case Stop_begin
  with assms(1) show ?thesis by (simp add: effect_inv_def)
next
  case Stop_step
  with assms(1) show ?thesis by (simp add: effect_inv_def)
qed

lemma effect_inv_exec:
  assumes "effect_inv i u s" and "\<forall>e \<in> set evs. quiet_for i e"
  shows "effect_inv i u (exec evs s)"
  using assms
proof (induction evs arbitrary: s)
  case Nil
  then show ?case by simp
next
  case (Cons e evs)
  from Cons.prems have "effect_inv i u (step e s)" by (intro effect_inv_step) simp_all
  from Cons.IH[OF this] Cons.prems(2) show ?case by simp
qed

lemma init_effect_inv:
  assumes "i < 3 + nat n"
  shows "effect_inv i u (EventDispatcher_init ctx lg timeout dm n u)"
proof -
  have "shared (EventDispatcher_init ctx lg timeout dm n u) = u"
    by (simp add: EventDispatcher_init_eq)
  with assms show ?thesis
    by (simp add: effect_inv_def init_length init_fresh[OF assms] current_inv_def)
qed

subsection \<open>Evaluating concrete runs\<close>

lemmas eval_simps =
  EventDispatcher_init_eq utility_names_def fresh_worker_def tick_def run_step.simps
  stop_begin_def stop_step_def log_append_def attach_context_def detach_context_def
  thread_is_alive_def schedule_utility_task_def queue_put_def Let_def kwargs_get_def
  str_nat.simps digit_char_def upt_rec numeral_2_eq_2 numeral_3_eq_3

text \<open>A run in which \<open>stop\<close> is called at once and every thread exits.\<close>

lemma stopped_state:
  "exec [Stop_begin, Tick 0, Tick 0, Tick 1, Tick 1, Tick 2, Tick 2,
        Stop_step, Stop_step, Stop_step]
      (EventDispatcher_init (PyOpaque ''ctx'') [] (PyOpaque ''0.1'') False 0 ([]::pyval list)) =
   \<lparr>d_threads = [(''metadata'', 0), (''monitor'', 1), (''get_put'', 2)],
    d_timeout = PyOpaque ''0.1'', stop_event = True,
    d_context = PyOpaque ''ctx'', d_utility_threads = [],
    d_utility_queue = 0, d_debug_monitor = False,
    thread_heap =
      [\<lparr>w_name = ''metadata'', w_daemon = True, w_context = PyNone,
          current_callback = None, w_timeout = PyOpaque ''0.1'',
          w_queue = 1, w_phase = Finished, w_handled = []\<rparr>,
       \<lparr>w_name = ''monitor'', w_daemon = True, w_context = PyNone,
          current_callback = None, w_timeout = PyOpaque ''0.1'',
          w_queue = 2, w_phase = Finished, w_handled = []\<rparr>,
       \<lparr>w_name = ''get_put'', w_daemon = True, w_context = PyNone,
          current_callback = None, w_timeout = PyOpaque ''0.1'',
          w_queue = 3, w_phase = Finished, w_handled = []\<rparr>],
    queue_heap = (\<lambda>q. []), queue_count = 4,
    logger =
      [Debug_started ''metadata'',
       Debug_attaching ''metadata'' (PyOpaque ''ctx''),
       Debug_detaching ''metadata'' (PyOpaque ''ctx''),
       Debug_exiting ''metadata'', Debug_started ''monitor'',
       Debug_attaching ''monitor'' (PyOpaque ''ctx''),
       Debug_detaching ''monitor'' (PyOpaque ''ctx''),
       Debug_exiting ''monitor'', Debug_started ''get_put'',
       Debug_attaching ''get_put'' (PyOpaque ''ctx''),
       Debug_detaching ''get_put'' (PyOpaque ''ctx''),
       Debug_exiting ''get_put''],
    shared = [], stop_call = Joining [], enqueued = (\<lambda>q. []), dequeued = (\<lambda>q. [])\<rparr>"
  by (simp add: eval_simps)

lemma example_callbacks [simp]:
  "dunder_name append_callback = Some ''append''"
  "dunder_name failing_callback = Some ''failing''"
  "dunder_name exiting_callback = Some ''exiting''"
  "dunder_name nameless_callback = None"
  "call_callable append_callback args kw t = (Returns, t\<lparr>shared := shared t @ args\<rparr>)"
  "call_callable failing_callback args kw t = (Raises (Exc ''ValueError''), t)"
  "call_callable exiting_callback args kw t = (Raises (BaseExc ''SystemExit''), t)"
  "call_callable nameless_callback args kw t = (Returns, t\<lparr>shared := shared t @ args\<rparr>)"
  "survivable (append_callback, args, kw)"
  "survivable (failing_callback, args, kw)"
  "survivable (nameless_callback, args, kw)"
  by (simp_all add: append_callback_def failing_callback_def exiting_callback_def
      nameless_callback_def)

lemmas run_simps = example_dispatcher_def eval_simps



lemma take_run_facts:
  "length (thread_heap take_run) = 3"
  "w_phase (thread_heap take_run ! 1) = Polling"
  "w_queue (thread_heap take_run ! 1) = 2"
  "queue_heap take_run 2 = [(append_callback, [PyInt 5], [(''pvname'', PyStr ''pv1'')])]"
  "current_callback (thread_heap take_run ! 1) = None"
  unfolding take_run_def by (simp_all add: run_simps)

lemma fifo_run_facts:
  "w_handled (thread_heap fifo_run ! 1) =
     [(append_callback, [PyInt 0], []), (append_callback, [PyInt 1], [])]"
  "w_phase (thread_heap fifo_run ! 1) = Checking"
  "queue_heap fifo_run 2 = [(append_callback, [PyInt 2], []), (append_callback, [PyInt 3], [])]"
  unfolding fifo_run_def by (simp_all add: run_simps)

lemma taking_facts:
  "w_phase (thread_heap (tick 1 take_run) ! 1) =
     Executing (append_callback, [PyInt 5], [(''pvname'', PyStr ''pv1'')])"
  "shared (tick 1 take_run) = []"
  "current_callback (thread_heap (tick 1 take_run) ! 1) = Some (''append'', PyStr ''pv1'')"
  unfolding take_run_def by (simp_all add: run_simps)

lemma idle_run_facts:
  "length (thread_heap idle_run) = 3"
  "w_phase (thread_heap idle_run ! 1) = Polling"
  "w_queue (thread_heap idle_run ! 1) = 2"
  "queue_heap idle_run 2 = []"
  "w_handled (thread_heap idle_run ! 1) =
     [(append_callback, [PyInt 5], [(''pvname'', PyStr ''pv1'')])]"
  unfolding idle_run_def by (simp_all add: run_simps)


section \<open>The claims about construction and wrapping\<close>

text \<open>
  Claim C7, as the code has it.  The constructor has no parameter for category
  names.  For every size \<open>n\<close> of the utility pool it starts one thread for each of
  the three fixed names \<^verbatim>\<open>metadata\<close>, \<^verbatim>\<open>monitor\<close> and \<^verbatim>\<open>get_put\<close>, each with a queue
  of its own (the queues 1, 2 and 3), and \<open>n\<close> threads \<^verbatim>\<open>util0\<close>, \<^verbatim>\<open>util1\<close>, ... that
  all read the utility queue (the queue 0).  The names are distinct, each name is
  bound to a thread object of its own, every thread has been started when the
  constructor returns, and every queue is empty.
\<close>

theorem construction_fixed_categories:
  "(let s = EventDispatcher_init ctx lg timeout dm n u in
     map fst (d_threads s) = ''metadata'' # ''monitor'' # ''get_put'' # utility_names n
     \<and> distinct (map fst (d_threads s))
     \<and> map snd (d_threads s) = [0 ..< length (thread_heap s)]
     \<and> length (thread_heap s) = 3 + nat n
     \<and> list_all (\<lambda>w. w_phase w = Started \<and> thread_is_alive w) (thread_heap s)
     \<and> map w_queue (take 3 (thread_heap s)) = [1, 2, 3]
     \<and> list_all (\<lambda>w. w_queue w = d_utility_queue s) (drop 3 (thread_heap s))
     \<and> d_utility_queue s = 0
     \<and> length (drop 3 (thread_heap s)) = nat n
     \<and> queue_heap s = (\<lambda>q. []))"
  unfolding Let_def
  by (auto simp: EventDispatcher_init_eq length_utility_names distinct_utility_names
      named_not_utility fresh_worker_def thread_is_alive_def list_all_iff
      numeral_2_eq_2 numeral_3_eq_3 simp del: upt_Suc)

theorem construction_fixed_categories_witness:
  "(let s = EventDispatcher_init (PyOpaque ''ctx'') [] (PyOpaque ''0.1'') False 2 ([]::pyval list) in
     map fst (d_threads s) = [''metadata'', ''monitor'', ''get_put'', ''util0'', ''util1'']
     \<and> map snd (d_threads s) = [0, 1, 2, 3, 4]
     \<and> map w_queue (thread_heap s) = [1, 2, 3, 0, 0]
     \<and> map w_phase (thread_heap s) = [Started, Started, Started, Started, Started])"
  using construction_fixed_categories[of "PyOpaque ''ctx''" "[]" "PyOpaque ''0.1''" False 2 "[]::pyval list"]
  by (simp add: Let_def EventDispatcher_init_eq utility_names_def fresh_worker_def
      str_nat.simps digit_char_def upt_rec numeral_2_eq_2 numeral_3_eq_3)

text \<open>
  Claim C7 as stated fails: a caller that wants the categories \<^verbatim>\<open>a\<close> and \<^verbatim>\<open>b\<close> and
  two utility threads gets a dispatcher without a category \<^verbatim>\<open>a\<close>; its categories
  are the fixed ones.
\<close>

theorem categories_not_a_parameter:
  "''a'' \<notin> set (map fst (d_threads
      (EventDispatcher_init (PyOpaque ''ctx'') [] (PyOpaque ''0.1'') False 2 ([]::pyval list))))
   \<and> map fst (d_threads
      (EventDispatcher_init (PyOpaque ''ctx'') [] (PyOpaque ''0.1'') False 2 ([]::pyval list))) =
       [''metadata'', ''monitor'', ''get_put'', ''util0'', ''util1'']"
  by (simp add: init_keys utility_names_def str_nat.simps digit_char_def upt_rec numeral_2_eq_2)

text \<open>
  Claim C9.  Wrapping the null callback returns it unchanged, whatever the category
  and whatever the dispatcher: no closure is built and the category is not looked
  up.  \<open>wrap_callback\<close> returns a value only, so it puts nothing on any queue.
\<close>

theorem wrap_callback_None: "wrap_callback dispatcher event_type None = Inr None"
  by (simp add: wrap_callback_def)

text \<open>
  Claim C5 as stated fails: for a name that is not registered, wrapping the null
  callback succeeds.
\<close>

theorem wrap_callback_unchecked_for_None:
  "''bogus'' \<notin> set (map fst (d_threads
      (EventDispatcher_init (PyOpaque ''ctx'') [] (PyOpaque ''0.1'') False 2 ([]::pyval list))))
   \<and> wrap_callback
        (EventDispatcher_init (PyOpaque ''ctx'') [] (PyOpaque ''0.1'') False 2 ([]::pyval list))
        ''bogus'' None = Inr None"
  by (simp add: init_keys wrap_callback_def utility_names_def str_nat.simps digit_char_def
      upt_rec numeral_2_eq_2)

text \<open>
  Claim C5, as the code has it, in every state \<open>s\<close> that a dispatcher reaches from
  its construction.  For a name that was not registered at construction, wrapping
  a callback that is neither \<^verbatim>\<open>None\<close> nor wrapped already fails at once with the
  \<^verbatim>\<open>AssertionError\<close>.  For a registered name it succeeds, with a closure over the
  queue of the thread of that name, as long as \<open>stop\<close> has not cleared the
  dictionary.  A callback that is wrapped already, and \<^verbatim>\<open>None\<close>, are returned as
  they are, and the name is not checked.  \<open>wrap_callback\<close> returns a value only: it
  puts nothing on any queue.  The code has no operation that schedules on a
  category other than calling the closure.
\<close>

theorem wrap_callback_category:
  "(let s0 = EventDispatcher_init ctx lg timeout dm n u; s = exec evs s0 in
     (event_type \<notin> set (''metadata'' # ''monitor'' # ''get_put'' # utility_names n) \<and>
        \<not> wrapped_callback_attr c \<longrightarrow>
      wrap_callback s event_type (Some c) = Inl AssertionError)
   \<and> (event_type \<in> set (''metadata'' # ''monitor'' # ''get_put'' # utility_names n) \<and>
        \<not> wrapped_callback_attr c \<and> d_threads s \<noteq> [] \<longrightarrow>
      (\<exists>t. map_of (d_threads s0) event_type = Some t \<and>
        wrap_callback s event_type (Some c) =
          Inr (Some (Wrapped (w_queue (thread_heap s0 ! t)) c))))
   \<and> (wrapped_callback_attr c \<longrightarrow> wrap_callback s event_type (Some c) = Inr (Some c))
   \<and> wrap_callback s event_type None = Inr None)"
proof -
  define s0 where "s0 = EventDispatcher_init ctx lg timeout dm n u"
  define s where "s = exec evs s0"
  have keys: "map fst (d_threads s0) = ''metadata'' # ''monitor'' # ''get_put'' # utility_names n"
    by (simp add: s0_def init_keys)
  have d: "d_threads s = d_threads s0 \<or> d_threads s = []"
    unfolding s_def by (rule exec_d_threads)
  have a: "wrap_callback s event_type (Some c) = Inl AssertionError"
    if "event_type \<notin> set (''metadata'' # ''monitor'' # ''get_put'' # utility_names n)"
      and "\<not> wrapped_callback_attr c"
  proof -
    from that(1) keys have "event_type \<notin> fst ` set (d_threads s0)"
      by (metis set_map)
    with d have "map_of (d_threads s) event_type = None"
      by (auto simp: map_of_eq_None_iff)
    with that(2) show ?thesis by (simp add: wrap_callback_def)
  qed
  have b: "\<exists>t. map_of (d_threads s0) event_type = Some t \<and>
        wrap_callback s event_type (Some c) =
          Inr (Some (Wrapped (w_queue (thread_heap s0 ! t)) c))"
    if "event_type \<in> set (''metadata'' # ''monitor'' # ''get_put'' # utility_names n)"
      and "\<not> wrapped_callback_attr c" and "d_threads s \<noteq> []"
  proof -
    from that(1) keys have "event_type \<in> fst ` set (d_threads s0)"
      by (metis set_map)
    then obtain t where t: "map_of (d_threads s0) event_type = Some t"
      by (cases "map_of (d_threads s0) event_type") (auto simp: map_of_eq_None_iff)
    from d that(3) have "d_threads s = d_threads s0" by simp
    with t that(2) have "wrap_callback s event_type (Some c) =
          Inr (Some (Wrapped (w_queue (thread_heap s0 ! t)) c))"
      by (simp add: wrap_callback_def s_def)
    with t show ?thesis by blast
  qed
  have c: "wrap_callback s event_type (Some c) = Inr (Some c)" if "wrapped_callback_attr c"
    using that by (simp add: wrap_callback_def)
  have "wrap_callback s event_type None = Inr None" by (simp add: wrap_callback_def)
  with a b c show ?thesis unfolding Let_def s_def s0_def by blast
qed

theorem wrap_callback_category_witness:
  "(let s = EventDispatcher_init (PyOpaque ''ctx'') [] (PyOpaque ''0.1'') False 1 ([]::pyval list);
        f = Fn (Some ''f'') (\<lambda>args kw u. (Returns, u @ args)) in
     wrap_callback s ''bogus'' (Some f) = Inl AssertionError
   \<and> wrap_callback s ''monitor'' (Some f) = Inr (Some (Wrapped 2 f))
   \<and> wrap_callback s ''util0'' (Some f) = Inr (Some (Wrapped 0 f))
   \<and> wrap_callback s ''bogus'' (Some (Wrapped 2 f)) = Inr (Some (Wrapped 2 f)))"
  using wrap_callback_category[where event_type = "''bogus''" and n = 1
      and c = "Fn (Some ''f'') (\<lambda>args kw u. (Returns, u @ args))"
      and ctx = "PyOpaque ''ctx''" and lg = "[]" and timeout = "PyOpaque ''0.1''"
      and dm = False and u = "[]::pyval list" and evs = "[]"]
    wrap_callback_category[where event_type = "''monitor''" and n = 1
      and c = "Fn (Some ''f'') (\<lambda>args kw u. (Returns, u @ args))"
      and ctx = "PyOpaque ''ctx''" and lg = "[]" and timeout = "PyOpaque ''0.1''"
      and dm = False and u = "[]::pyval list" and evs = "[]"]
  by (simp add: Let_def wrap_callback_def EventDispatcher_init_eq utility_names_def
      str_nat.simps digit_char_def upt_rec numeral_2_eq_2 numeral_3_eq_3 fresh_worker_def)

text \<open>
  Claim C6.  For a category in the dictionary and every callback \<open>c\<close>, wrapping
  succeeds with a callable \<open>r\<close>, and wrapping \<open>r\<close> again returns \<open>r\<close> itself.  Calling
  \<open>r\<close> returns at once and puts exactly one task on exactly one queue; the shared
  state is untouched, so nothing has run.  When \<open>c\<close> was not wrapped before, the
  task is \<open>c\<close> with the arguments of the call, on the queue of the category.
\<close>

theorem wrap_callback_idempotent:
  assumes "map_of (d_threads dispatcher) event_type = Some t"
  shows "\<exists>r. wrap_callback dispatcher event_type (Some c) = Inr (Some r)
    \<and> wrap_callback dispatcher event_type (Some r) = Inr (Some r)
    \<and> (\<not> wrapped_callback_attr c \<longrightarrow> r = Wrapped (w_queue (thread_heap dispatcher ! t)) c)
    \<and> (\<exists>q c0. call_callable r args kw s = (Returns, queue_put q (c0, args, kw) s)
          \<and> queue_heap (queue_put q (c0, args, kw) s) =
              (queue_heap s)(q := queue_heap s q @ [(c0, args, kw)])
          \<and> shared (queue_put q (c0, args, kw) s) = shared s
          \<and> (\<not> wrapped_callback_attr c \<longrightarrow>
                q = w_queue (thread_heap dispatcher ! t) \<and> c0 = c))"
proof (cases c)
  case (Fn n b)
  with assms show ?thesis by (simp add: wrap_callback_def queue_put_def)
next
  case (Wrapped q c')
  have "call_callable c args kw s = (Returns, queue_put q (c', args, kw) s)
      \<and> queue_heap (queue_put q (c', args, kw) s) =
          (queue_heap s)(q := queue_heap s q @ [(c', args, kw)])
      \<and> shared (queue_put q (c', args, kw) s) = shared s
      \<and> (\<not> wrapped_callback_attr c \<longrightarrow> q = w_queue (thread_heap dispatcher ! t) \<and> c' = c)"
    by (simp add: Wrapped queue_put_def)
  then have "\<exists>q c0. call_callable c args kw s = (Returns, queue_put q (c0, args, kw) s)
      \<and> queue_heap (queue_put q (c0, args, kw) s) =
          (queue_heap s)(q := queue_heap s q @ [(c0, args, kw)])
      \<and> shared (queue_put q (c0, args, kw) s) = shared s
      \<and> (\<not> wrapped_callback_attr c \<longrightarrow> q = w_queue (thread_heap dispatcher ! t) \<and> c0 = c)"
    by blast
  moreover have "wrap_callback dispatcher event_type (Some c) = Inr (Some c)"
    by (simp add: Wrapped wrap_callback_def)
  moreover have "wrapped_callback_attr c" by (simp add: Wrapped)
  ultimately show ?thesis by blast
qed

theorem wrap_callback_idempotent_witness:
  "(let d = EventDispatcher_init (PyOpaque ''ctx'') [] (PyOpaque ''0.1'') False 1 ([]::pyval list);
        f = Fn (Some ''f'') (\<lambda>args kw u. (Returns, u @ args)) in
     map_of (d_threads d) ''monitor'' = Some 1
   \<and> wrap_callback d ''monitor'' (Some f) = Inr (Some (Wrapped 2 f))
   \<and> wrap_callback d ''monitor'' (Some (Wrapped 2 f)) = Inr (Some (Wrapped 2 f))
   \<and> queue_heap (snd (call_callable (Wrapped 2 f) [PyInt 7] [] d)) 2 = [(f, [PyInt 7], [])]
   \<and> (\<forall>q. q \<noteq> 2 \<longrightarrow> queue_heap (snd (call_callable (Wrapped 2 f) [PyInt 7] [] d)) q = [])
   \<and> shared (snd (call_callable (Wrapped 2 f) [PyInt 7] [] d)) = [])"
  using wrap_callback_idempotent[where dispatcher =
      "EventDispatcher_init (PyOpaque ''ctx'') [] (PyOpaque ''0.1'') False 1 ([]::pyval list)"
      and event_type = "''monitor''" and t = 1
      and c = "Fn (Some ''f'') (\<lambda>args kw u. (Returns, u @ args))"
      and args = "[PyInt 7]" and kw = "[]" and s =
      "EventDispatcher_init (PyOpaque ''ctx'') [] (PyOpaque ''0.1'') False 1 ([]::pyval list)"]
  by (simp add: Let_def wrap_callback_def EventDispatcher_init_eq utility_names_def
      str_nat.simps digit_char_def upt_rec numeral_2_eq_2 numeral_3_eq_3 fresh_worker_def
      queue_put_def)

section \<open>The claims about stopping\<close>

text \<open>
  Claim C3, in every state \<open>s\<close> that a dispatcher reaches from its construction,
  under every interleaving.  A call of \<open>stop\<close> sets the stop event and goes on to
  join every thread of the dictionary, which until the first \<open>stop\<close> has returned
  holds every thread object.  A \<open>join\<close> waits while its thread is alive.  When
  the joins are over, the event is set and no thread is alive; \<open>stop\<close> then clears
  the dictionary and returns.  A second call of \<open>stop\<close> after that leaves the state
  exactly as it is.
\<close>

theorem stop_joins_and_is_idempotent:
  "(let s = exec evs (EventDispatcher_init ctx lg timeout dm n u) in
     (stop_call s = Not_stopping \<longrightarrow>
        stop_event (stop_begin s) \<and>
        stop_call (stop_begin s) = Joining (map snd (d_threads s)) \<and>
        (d_threads s \<noteq> [] \<longrightarrow> map snd (d_threads s) = [0 ..< length (thread_heap s)]))
   \<and> (\<forall>t ts. stop_call s = Joining (t # ts) \<longrightarrow>
        stop_step s =
          (if thread_is_alive (thread_heap s ! t) then s else s\<lparr>stop_call := Joining ts\<rparr>))
   \<and> (stop_call s = Joining [] \<longrightarrow>
        stop_event s \<and> all_dead s \<and>
        stop_step s = s\<lparr>d_threads := [], stop_call := Not_stopping\<rparr> \<and>
        exec [Stop_begin, Stop_step] (stop_step s) = stop_step s))"
proof -
  define s0 where "s0 = EventDispatcher_init ctx lg timeout dm n u"
  define s where "s = exec evs s0"
  have inv: "stop_inv s" unfolding s_def s0_def by (intro stop_inv_exec stop_inv_init)
  have a: "stop_event (stop_begin s) \<and>
        stop_call (stop_begin s) = Joining (map snd (d_threads s)) \<and>
        (d_threads s \<noteq> [] \<longrightarrow> map snd (d_threads s) = [0 ..< length (thread_heap s)])"
    if "stop_call s = Not_stopping"
  proof -
    have "d_threads s = d_threads s0 \<or> d_threads s = []"
      unfolding s_def by (rule exec_d_threads)
    moreover have "map snd (d_threads s0) = [0 ..< length (thread_heap s)]"
      unfolding s_def s0_def
      by (simp add: init_values init_length)
    ultimately show ?thesis using that by (auto simp: stop_begin_def)
  qed
  have b: "stop_step s =
          (if thread_is_alive (thread_heap s ! t) then s else s\<lparr>stop_call := Joining ts\<rparr>)"
    if "stop_call s = Joining (t # ts)" for t ts
    using that by (simp add: stop_step_def)
  have c: "stop_event s \<and> all_dead s \<and>
        stop_step s = s\<lparr>d_threads := [], stop_call := Not_stopping\<rparr> \<and>
        exec [Stop_begin, Stop_step] (stop_step s) = stop_step s"
    if j: "stop_call s = Joining []"
  proof -
    from joined_all_dead[OF inv j] have d: "all_dead s" and e: "stop_event s" .
    have f: "stop_step s = s\<lparr>d_threads := [], stop_call := Not_stopping\<rparr>"
      using j by (simp add: stop_step_def)
    have "exec [Stop_begin, Stop_step] (stop_step s) = stop_step s"
      using e j by (simp add: stop_begin_def stop_step_def)
    with d e f show ?thesis by simp
  qed
  from a b c show ?thesis unfolding Let_def s_def s0_def by blast
qed

theorem stop_joins_and_is_idempotent_witness:
  "(let s = exec [Stop_begin, Tick 0, Tick 0, Tick 1, Tick 1, Tick 2, Tick 2,
        Stop_step, Stop_step, Stop_step]
      (EventDispatcher_init (PyOpaque ''ctx'') [] (PyOpaque ''0.1'') False 0 ([]::pyval list)) in
     stop_call s = Joining [] \<and> stop_event s \<and> all_dead s
   \<and> map w_phase (thread_heap s) = [Finished, Finished, Finished]
   \<and> d_threads (stop_step s) = []
   \<and> exec [Stop_begin, Stop_step] (stop_step s) = stop_step s)"
  using stop_joins_and_is_idempotent[where evs = "[Stop_begin, Tick 0, Tick 0, Tick 1, Tick 1,
        Tick 2, Tick 2, Stop_step, Stop_step, Stop_step]"
      and ctx = "PyOpaque ''ctx''" and lg = "[]" and timeout = "PyOpaque ''0.1''"
      and dm = False and n = 0 and u = "[]::pyval list"]
  unfolding stopped_state
  by (simp add: stop_step_def stop_begin_def all_dead_def thread_is_alive_def)

text \<open>
  Claim C4, under every interleaving.  When the joins of \<open>stop\<close> are over, then
  from the return of \<open>stop\<close> on, whatever happens next (\<open>evs'\<close>: calls of wrapped
  callbacks, utility tasks, further steps of any thread, further calls of \<open>stop\<close>),
  no thread is alive, the thread objects do not change, no task is taken from any
  queue, and every task put on a queue stays there.  And a thread that finds the
  stop event set at the test of its loop returns from \<open>run\<close> without touching its
  queue.
\<close>

theorem nothing_dequeued_after_stop:
  assumes "stop_call (exec evs (EventDispatcher_init ctx lg timeout dm n u)) = Joining []"
  shows "(let s = exec evs (EventDispatcher_init ctx lg timeout dm n u);
              s' = exec (Stop_step # evs') s in
            all_dead s' \<and> \<not> is_alive s' \<and> d_threads s' = [] \<and>
            thread_heap s' = thread_heap s \<and> dequeued s' = dequeued s \<and> only_puts s s')
     \<and> (i < length (thread_heap s1) \<and> w_phase (thread_heap s1 ! i) = Checking \<and> stop_event s1 \<longrightarrow>
            w_phase (thread_heap (tick i s1) ! i) = Finished \<and>
            queue_heap (tick i s1) = queue_heap s1 \<and> dequeued (tick i s1) = dequeued s1)"
proof -
  define s where "s = exec evs (EventDispatcher_init ctx lg timeout dm n u)"
  define s' where "s' = exec (Stop_step # evs') s"
  have inv: "stop_inv s" unfolding s_def by (intro stop_inv_exec stop_inv_init)
  from assms have j: "stop_call s = Joining []" by (simp add: s_def)
  from joined_all_dead[OF inv j] have d: "all_dead s" by simp
  then have d1: "all_dead (stop_step s)" by (simp add: all_dead_def)
  note f = frozen_exec[OF d1, of evs']
  have s': "s' = exec evs' (stop_step s)" by (simp add: s'_def)
  have h: "thread_heap s' = thread_heap s" and q: "dequeued s' = dequeued s"
    using f by (simp_all add: s')
  have "only_puts s (stop_step s)" by (simp add: only_puts_def)
  with f have o: "only_puts s s'" unfolding s' by (blast intro: only_puts_trans)
  from d h have a: "all_dead s'" by (simp add: all_dead_def)
  have "d_threads (stop_step s) = []" using j by (simp add: stop_step_def)
  with exec_d_threads[of evs' "stop_step s"] have e: "d_threads s' = []" by (auto simp: s')
  then have l: "\<not> is_alive s'" by (simp add: is_alive_def)
  have t: "w_phase (thread_heap (tick i s1) ! i) = Finished \<and>
            queue_heap (tick i s1) = queue_heap s1 \<and> dequeued (tick i s1) = dequeued s1"
    if "i < length (thread_heap s1)" "w_phase (thread_heap s1 ! i) = Checking" "stop_event s1"
    using that
    by (simp add: tick_def run_step.simps detach_context_def log_append_def)
  from a l e h q o t show ?thesis unfolding Let_def s'_def s_def by blast
qed

theorem nothing_dequeued_after_stop_witness:
  "(let f = Fn (Some ''f'') (\<lambda>args kw u. (Returns, u @ args));
        s = exec [Stop_begin, Tick 0, Tick 0, Tick 1, Tick 1, Tick 2, Tick 2,
              Stop_step, Stop_step, Stop_step]
             (EventDispatcher_init (PyOpaque ''ctx'') [] (PyOpaque ''0.1'') False 0 []);
        s' = exec [Stop_step, Call (Wrapped 1 f) [PyInt 1] [], Tick 0, Tick 0, Tick 0] s in
     stop_call s = Joining [] \<and> all_dead s' \<and> \<not> is_alive s' \<and>
     dequeued s' = dequeued s \<and> dequeued s' 1 = [] \<and>
     queue_heap s' 1 = [(f, [PyInt 1], [])] \<and> shared s' = [])"
proof -
  define f :: "pyval list callable" where "f = Fn (Some ''f'') (\<lambda>args kw u. (Returns, u @ args))"
  define s where "s = exec [Stop_begin, Tick 0, Tick 0, Tick 1, Tick 1, Tick 2, Tick 2,
              Stop_step, Stop_step, Stop_step]
             (EventDispatcher_init (PyOpaque ''ctx'') [] (PyOpaque ''0.1'') False 0 ([]::pyval list))"
  define s' where "s' = exec [Stop_step, Call (Wrapped 1 f) [PyInt 1] [], Tick 0, Tick 0, Tick 0] s"
  have h: "stop_call s = Joining []"
    unfolding s_def stopped_state by simp
  from nothing_dequeued_after_stop[OF h[unfolded s_def],
      where evs' = "[Call (Wrapped 1 f) [PyInt 1] [], Tick 0, Tick 0, Tick 0]"
        and i = 0 and ?s1.0 = s]
  have a: "all_dead s'" "\<not> is_alive s'" "dequeued s' = dequeued s"
    unfolding Let_def s_def[symmetric] s'_def[symmetric] by simp_all
  have "dequeued s 1 = []" unfolding s_def stopped_state by simp
  with a(3) have b: "dequeued s' 1 = []" by simp
  have c: "queue_heap s' 1 = [(f, [PyInt 1], [])]" "shared s' = []"
    unfolding s'_def s_def stopped_state by (simp_all add: eval_simps)
  from h a b c show ?thesis
    unfolding Let_def f_def[symmetric] s_def[symmetric] s'_def[symmetric] by simp
qed

section \<open>The claims about the worker loop\<close>




text \<open>
  Claim C2, in every state \<open>s\<close> that a dispatcher reaches from its construction,
  under every interleaving of producers, threads and \<open>stop\<close>.  Every queue is first
  in, first out: the tasks ever put on it are the tasks taken from it followed by
  the tasks still on it, in the order of the puts.  Each of the categories
  \<^verbatim>\<open>metadata\<close>, \<^verbatim>\<open>monitor\<close> and \<^verbatim>\<open>get_put\<close> has one thread, which is the only reader of
  its queue and finishes with one task before it takes the next; so the tasks the
  thread has finished with, the task it is executing, and the tasks that wait are
  together the tasks put on the queue, in the order of the puts.  With one utility
  thread the same holds of the utility queue.  Nothing relates two queues.

  Finishing with a task is calling its callback.  In any state \<open>t\<close>, the step of a
  thread that is executing a task is the call of the callable of that task with
  its arguments: the shared state and the queues after the step are those after
  the call, and this is the step in which the task joins the tasks finished
  with.  A step of a thread that is not executing a task leaves the shared state
  alone.  And in every run in which no other thread and no producer touches the
  shared state, the shared state is what the callbacks of the tasks the thread
  has finished with make of the initial state \<open>u\<close>, applied one after the other in
  the order they were put on the queue.
\<close>

theorem tasks_in_fifo_order:
  "(let s0 = EventDispatcher_init ctx lg timeout dm n u; s = exec evs s0 in
      (\<forall>q. enqueued s q = dequeued s q @ queue_heap s q)
    \<and> map_of (d_threads s0) ''metadata'' = Some 0
    \<and> map_of (d_threads s0) ''monitor'' = Some 1
    \<and> map_of (d_threads s0) ''get_put'' = Some 2
    \<and> (\<forall>i<3. sole_reader i (Suc i) s \<and>
          dequeued s (Suc i) =
            w_handled (thread_heap s ! i) @ in_flight (w_phase (thread_heap s ! i)) \<and>
          enqueued s (Suc i) =
            w_handled (thread_heap s ! i) @ in_flight (w_phase (thread_heap s ! i)) @
            queue_heap s (Suc i) \<and>
          ((\<forall>e \<in> set evs. quiet_for i e) \<longrightarrow>
             shared s = fold task_effect (w_handled (thread_heap s ! i)) u))
    \<and> (n = 1 \<longrightarrow> handles_in_order 3 0 s))
   \<and> (j < length (thread_heap t) \<and> w_phase (thread_heap t ! j) = Executing (c, args, kw) \<longrightarrow>
        shared (tick j t) = shared (snd (call_callable c args kw t)) \<and>
        queue_heap (tick j t) = queue_heap (snd (call_callable c args kw t)) \<and>
        w_handled (thread_heap (tick j t) ! j) = w_handled (thread_heap t ! j) @ [(c, args, kw)])
   \<and> (j' < length (thread_heap t') \<and> (\<forall>task. w_phase (thread_heap t' ! j') \<noteq> Executing task) \<longrightarrow>
        shared (tick j' t') = shared t')"
proof -
  define s0 where "s0 = EventDispatcher_init ctx lg timeout dm n u"
  define s where "s = exec evs s0"
  have f: "fifo_inv s" unfolding s_def s0_def by (intro fifo_inv_exec init_fifo_inv)
  then have a: "\<forall>q. enqueued s q = dequeued s q @ queue_heap s q" by (simp add: fifo_inv_def)
  have b: "sole_reader i (Suc i) s \<and>
          dequeued s (Suc i) =
            w_handled (thread_heap s ! i) @ in_flight (w_phase (thread_heap s ! i)) \<and>
          enqueued s (Suc i) =
            w_handled (thread_heap s ! i) @ in_flight (w_phase (thread_heap s ! i)) @
            queue_heap s (Suc i) \<and>
          ((\<forall>e \<in> set evs. quiet_for i e) \<longrightarrow>
             shared s = fold task_effect (w_handled (thread_heap s ! i)) u)" if "i < 3" for i
  proof -
    have "handles_in_order i (Suc i) s"
      unfolding s_def s0_def by (intro handles_in_order_exec init_handles_in_order that)
    moreover have "shared s = fold task_effect (w_handled (thread_heap s ! i)) u"
      if q: "\<forall>e \<in> set evs. quiet_for i e"
    proof -
      from \<open>i < 3\<close> have "i < 3 + nat n" by simp
      then have "effect_inv i u s0" unfolding s0_def by (rule init_effect_inv)
      from effect_inv_exec[OF this q] show ?thesis by (simp add: s_def effect_inv_def)
    qed
    ultimately show ?thesis using a by (simp add: handles_in_order_def)
  qed
  have c: "handles_in_order 3 0 s" if "n = 1"
    unfolding s_def s0_def that by (intro handles_in_order_exec init_utility_handles_in_order)
  have m: "map_of (d_threads s0) ''metadata'' = Some 0" "map_of (d_threads s0) ''monitor'' = Some 1"
    "map_of (d_threads s0) ''get_put'' = Some 2"
    unfolding s0_def by (rule init_map_of)+
  have d: "shared (tick j t) = shared (snd (call_callable c args kw t)) \<and>
        queue_heap (tick j t) = queue_heap (snd (call_callable c args kw t)) \<and>
        w_handled (thread_heap (tick j t) ! j) = w_handled (thread_heap t ! j) @ [(c, args, kw)]"
    if j: "j < length (thread_heap t)" and p: "w_phase (thread_heap t ! j) = Executing (c, args, kw)"
  proof -
    obtain w' s' where r: "run_step (thread_heap t ! j) t = (w', s')"
      by (cases "run_step (thread_heap t ! j) t")
    from run_step_calls[OF r p] j show ?thesis by (simp add: tick_eq[OF j r])
  qed
  have e: "shared (tick j' t') = shared t'"
    if j: "j' < length (thread_heap t')" and p: "\<forall>task. w_phase (thread_heap t' ! j') \<noteq> Executing task"
  proof -
    obtain w' s' where r: "run_step (thread_heap t' ! j') t' = (w', s')"
      by (cases "run_step (thread_heap t' ! j') t'")
    from run_step_shared_idle[OF r p] show ?thesis by (simp add: tick_eq[OF j r])
  qed
  have first: "(\<forall>q. enqueued s q = dequeued s q @ queue_heap s q)
    \<and> map_of (d_threads s0) ''metadata'' = Some 0
    \<and> map_of (d_threads s0) ''monitor'' = Some 1
    \<and> map_of (d_threads s0) ''get_put'' = Some 2
    \<and> (\<forall>i<3. sole_reader i (Suc i) s \<and>
          dequeued s (Suc i) =
            w_handled (thread_heap s ! i) @ in_flight (w_phase (thread_heap s ! i)) \<and>
          enqueued s (Suc i) =
            w_handled (thread_heap s ! i) @ in_flight (w_phase (thread_heap s ! i)) @
            queue_heap s (Suc i) \<and>
          ((\<forall>e \<in> set evs. quiet_for i e) \<longrightarrow>
             shared s = fold task_effect (w_handled (thread_heap s ! i)) u))
    \<and> (n = 1 \<longrightarrow> handles_in_order 3 0 s)"
    using a b c m by blast
  from first d e show ?thesis unfolding Let_def s_def s0_def by blast
qed

theorem tasks_in_fifo_order_witness:
  "w_handled (thread_heap fifo_run ! 1) =
     [(append_callback, [PyInt 0], []), (append_callback, [PyInt 1], [])]
   \<and> w_phase (thread_heap fifo_run ! 1) = Checking
   \<and> queue_heap fifo_run 2 = [(append_callback, [PyInt 2], []), (append_callback, [PyInt 3], [])]
   \<and> enqueued fifo_run 2 =
        [(append_callback, [PyInt 0], []), (append_callback, [PyInt 1], []),
         (append_callback, [PyInt 2], []), (append_callback, [PyInt 3], [])]
   \<and> shared fifo_run = [PyInt 0, PyInt 1]
   \<and> 1 < length (thread_heap (tick 1 take_run))
   \<and> w_phase (thread_heap (tick 1 take_run) ! 1) =
        Executing (append_callback, [PyInt 5], [(''pvname'', PyStr ''pv1'')])
   \<and> shared (tick 1 (tick 1 take_run)) = [PyInt 5]
   \<and> w_handled (thread_heap (tick 1 (tick 1 take_run)) ! 1) =
        [(append_callback, [PyInt 5], [(''pvname'', PyStr ''pv1'')])]
   \<and> w_phase (thread_heap take_run ! 1) = Polling
   \<and> shared (tick 1 take_run) = shared take_run"
proof -
  let ?evs = "[Call (Wrapped 2 append_callback) [PyInt 0] [],
           Call (Wrapped 2 append_callback) [PyInt 1] [],
           Call (Wrapped 2 append_callback) [PyInt 2] [],
           Tick 1, Tick 1, Tick 1,
           Call (Wrapped 2 append_callback) [PyInt 3] [],
           Tick 1, Tick 1, Tick 1, Tick 1] :: pyval list event list"
  note t = tasks_in_fifo_order[where evs = ?evs
      and ctx = "PyOpaque ''ctx''" and lg = "[]" and timeout = "PyOpaque ''0.1''"
      and dm = False and n = 0 and u = "[]"
      and j = 1 and t = "tick 1 take_run" and c = append_callback and args = "[PyInt 5]"
      and kw = "[(''pvname'', PyStr ''pv1'')]"
      and j' = 1 and t' = take_run,
      unfolded Let_def, folded example_dispatcher_def, folded fifo_run_def]
  note h = fifo_run_facts(1) and p = fifo_run_facts(2) and q = fifo_run_facts(3)
  from t have inv: "\<forall>i<3. sole_reader i (Suc i) fifo_run \<and>
          dequeued fifo_run (Suc i) =
            w_handled (thread_heap fifo_run ! i) @ in_flight (w_phase (thread_heap fifo_run ! i)) \<and>
          enqueued fifo_run (Suc i) =
            w_handled (thread_heap fifo_run ! i) @ in_flight (w_phase (thread_heap fifo_run ! i)) @
            queue_heap fifo_run (Suc i) \<and>
          ((\<forall>e \<in> set ?evs. quiet_for i e) \<longrightarrow>
             shared fifo_run = fold task_effect (w_handled (thread_heap fifo_run ! i)) [])"
    by (elim conjE)
  then have one: "enqueued fifo_run (Suc 1) =
            w_handled (thread_heap fifo_run ! 1) @ in_flight (w_phase (thread_heap fifo_run ! 1)) @
            queue_heap fifo_run (Suc 1)"
    and two: "(\<forall>e \<in> set ?evs. quiet_for 1 e) \<longrightarrow>
             shared fifo_run = fold task_effect (w_handled (thread_heap fifo_run ! 1)) []"
    by simp_all
  from one h p q have e: "enqueued fifo_run 2 =
        [(append_callback, [PyInt 0], []), (append_callback, [PyInt 1], []),
         (append_callback, [PyInt 2], []), (append_callback, [PyInt 3], [])]"
    by (simp add: numeral_2_eq_2)
  have "\<forall>e \<in> set ?evs. quiet_for 1 e" by simp
  with two have "shared fifo_run = fold task_effect (w_handled (thread_heap fifo_run ! 1)) []"
    by blast
  with h have u: "shared fifo_run = [PyInt 0, PyInt 1]"
    by (simp add: task_effect_def append_callback_def)
  have l: "1 < length (thread_heap (tick 1 take_run))" by (simp add: take_run_facts)
  note x = taking_facts(1)
  from t have "1 < length (thread_heap (tick 1 take_run)) \<and>
      w_phase (thread_heap (tick 1 take_run) ! 1) =
        Executing (append_callback, [PyInt 5], [(''pvname'', PyStr ''pv1'')]) \<longrightarrow>
      shared (tick 1 (tick 1 take_run)) =
        shared (snd (call_callable append_callback [PyInt 5] [(''pvname'', PyStr ''pv1'')]
          (tick 1 take_run))) \<and>
      queue_heap (tick 1 (tick 1 take_run)) =
        queue_heap (snd (call_callable append_callback [PyInt 5] [(''pvname'', PyStr ''pv1'')]
          (tick 1 take_run))) \<and>
      w_handled (thread_heap (tick 1 (tick 1 take_run)) ! 1) =
        w_handled (thread_heap (tick 1 take_run) ! 1) @
        [(append_callback, [PyInt 5], [(''pvname'', PyStr ''pv1'')])]"
    by (elim conjE)
  with l x have "shared (tick 1 (tick 1 take_run)) =
        shared (snd (call_callable append_callback [PyInt 5] [(''pvname'', PyStr ''pv1'')]
          (tick 1 take_run)))"
    and "w_handled (thread_heap (tick 1 (tick 1 take_run)) ! 1) =
        w_handled (thread_heap (tick 1 take_run) ! 1) @
        [(append_callback, [PyInt 5], [(''pvname'', PyStr ''pv1'')])]"
    by blast+
  moreover have "w_handled (thread_heap (tick 1 take_run) ! 1) = []"
    unfolding take_run_def by (simp add: run_simps)
  ultimately have y: "shared (tick 1 (tick 1 take_run)) = [PyInt 5]"
    "w_handled (thread_heap (tick 1 (tick 1 take_run)) ! 1) =
        [(append_callback, [PyInt 5], [(''pvname'', PyStr ''pv1'')])]"
    using taking_facts by simp_all
  have l': "1 < length (thread_heap take_run)" by (simp add: take_run_facts)
  note x' = take_run_facts(2)
  from t have "1 < length (thread_heap take_run) \<and>
      (\<forall>task. w_phase (thread_heap take_run ! 1) \<noteq> Executing task) \<longrightarrow>
      shared (tick 1 take_run) = shared take_run"
    by (elim conjE)
  with l' x' have z: "shared (tick 1 take_run) = shared take_run" by simp
  from h p q e u l x y x' z show ?thesis by blast
qed

text \<open>
  Claim C8 as stated fails: \<^verbatim>\<open>current_callback\<close> is never cleared.  The thread of
  \<^verbatim>\<open>monitor\<close> has finished with its only task and waits on its empty queue, idle,
  and still reports the task it finished.
\<close>

theorem idle_worker_keeps_current_callback:
  "w_phase (thread_heap idle_run ! 1) = Polling
   \<and> queue_heap idle_run 2 = []
   \<and> in_flight (w_phase (thread_heap idle_run ! 1)) = []
   \<and> w_handled (thread_heap idle_run ! 1) =
       [(append_callback, [PyInt 5], [(''pvname'', PyStr ''pv1'')])]
   \<and> current_callback (thread_heap idle_run ! 1) = Some (''append'', PyStr ''pv1'')"
proof -
  have a: "w_phase (thread_heap idle_run ! 1) = Polling"
    unfolding idle_run_def by (simp add: run_simps)
  then have b: "in_flight (w_phase (thread_heap idle_run ! 1)) = []" by simp
  have c: "queue_heap idle_run 2 = []"
    unfolding idle_run_def by (simp add: run_simps)
  have d: "w_handled (thread_heap idle_run ! 1) =
       [(append_callback, [PyInt 5], [(''pvname'', PyStr ''pv1'')])]"
    unfolding idle_run_def by (simp add: run_simps)
  have e: "current_callback (thread_heap idle_run ! 1) = Some (''append'', PyStr ''pv1'')"
    unfolding idle_run_def by (simp add: run_simps)
  from a b c d e show ?thesis by blast
qed

text \<open>
  Claim C8, as the code has it.  \<^verbatim>\<open>current_callback\<close> is \<^verbatim>\<open>None\<close> in every thread
  when the constructor returns.  In every state that a dispatcher reaches from
  its construction, under every interleaving, the \<^verbatim>\<open>current_callback\<close> of a thread
  is the identity, name of the callable and \<^verbatim>\<open>pvname\<close>, of the last task with a
  named callable that the thread has taken from its queue, and \<^verbatim>\<open>None\<close> when it
  has taken none; so a thread that is executing a task holds the identity of
  that task.  The value is assigned in the step in which the thread takes a task
  with a named callable, before the call.  Every other step of every thread
  leaves it exactly as it is: the call, the handler, a poll of an empty queue,
  the exit of the thread.  It is never set back to \<^verbatim>\<open>None\<close>, and an idle thread
  reports the last task it began.
\<close>

theorem current_callback_is_set_and_kept:
  "(let s0 = EventDispatcher_init ctx lg timeout dm n u; s = exec evs s0 in
      list_all (\<lambda>w. current_callback w = None) (thread_heap s0)
    \<and> (\<forall>i < length (thread_heap s). \<forall>c args kw.
          w_phase (thread_heap s ! i) = Executing (c, args, kw) \<longrightarrow>
          (\<exists>name. dunder_name c = Some name \<and>
             current_callback (thread_heap s ! i) = Some (name, kwargs_get kw ''pvname'')))
    \<and> (\<forall>i < length (thread_heap s).
          current_callback (thread_heap s ! i) =
            last_identity (w_handled (thread_heap s ! i) @ in_flight (w_phase (thread_heap s ! i)))))
   \<and> (i < length (thread_heap t) \<and> w_phase (thread_heap t ! i) = Polling \<and>
       queue_heap t (w_queue (thread_heap t ! i)) = (c, args, kw) # rest \<and>
       dunder_name c = Some name \<longrightarrow>
         w_phase (thread_heap (tick i t) ! i) = Executing (c, args, kw) \<and>
         current_callback (thread_heap (tick i t) ! i) = Some (name, kwargs_get kw ''pvname''))
   \<and> (i' < length (thread_heap t') \<and> w_phase (thread_heap t' ! i') = Executing task \<longrightarrow>
         current_callback (thread_heap (tick i' t') ! i') = current_callback (thread_heap t' ! i'))
   \<and> (current_callback (thread_heap t'' ! j) \<noteq> None \<longrightarrow>
         current_callback (thread_heap (step e t'') ! j) \<noteq> None)
   \<and> (e' \<noteq> Tick j' \<or> w_phase (thread_heap t3 ! j') \<noteq> Polling \<or>
       (case queue_heap t3 (w_queue (thread_heap t3 ! j')) of [] \<Rightarrow> True
        | (c, args, kw) # rest \<Rightarrow> dunder_name c = None) \<longrightarrow>
         current_callback (thread_heap (step e' t3) ! j') = current_callback (thread_heap t3 ! j'))"
proof -
  define s0 where "s0 = EventDispatcher_init ctx lg timeout dm n u"
  define s where "s = exec evs s0"
  have a: "list_all (\<lambda>w. current_callback w = None) (thread_heap s0)"
    unfolding s0_def by (auto simp: EventDispatcher_init_eq fresh_worker_def list_all_iff)
  have "\<forall>i < length (thread_heap s0). current_inv (thread_heap s0 ! i)"
    unfolding s0_def by (simp add: init_length init_fresh(2) current_inv_def)
  then have ci: "\<forall>i < length (thread_heap s). current_inv (thread_heap s ! i)"
    unfolding s_def by (rule exec_current_inv)
  have "\<forall>i < length (thread_heap s0).
      current_callback (thread_heap s0 ! i) = last_identity (taken (thread_heap s0 ! i))"
    unfolding s0_def by (simp add: init_length init_fresh taken_def)
  then have "\<forall>i < length (thread_heap s).
      current_callback (thread_heap s ! i) = last_identity (taken (thread_heap s ! i))"
    unfolding s_def by (rule exec_identity)
  then have b': "\<forall>i < length (thread_heap s).
          current_callback (thread_heap s ! i) =
            last_identity (w_handled (thread_heap s ! i) @ in_flight (w_phase (thread_heap s ! i)))"
    by (simp add: taken_def)
  from ci have b: "\<forall>i < length (thread_heap s). \<forall>c args kw.
          w_phase (thread_heap s ! i) = Executing (c, args, kw) \<longrightarrow>
          (\<exists>name. dunder_name c = Some name \<and>
             current_callback (thread_heap s ! i) = Some (name, kwargs_get kw ''pvname''))"
    by (simp add: current_inv_def)
  have c: "w_phase (thread_heap (tick i t) ! i) = Executing (c, args, kw) \<and>
         current_callback (thread_heap (tick i t) ! i) = Some (name, kwargs_get kw ''pvname'')"
    if "i < length (thread_heap t)" "w_phase (thread_heap t ! i) = Polling"
      "queue_heap t (w_queue (thread_heap t ! i)) = (c, args, kw) # rest"
      "dunder_name c = Some name"
    using that(1) by (simp add: tick_Polling_take[OF that])
  have d: "current_callback (thread_heap (tick i' t') ! i') = current_callback (thread_heap t' ! i')"
    if i: "i' < length (thread_heap t')" and p: "w_phase (thread_heap t' ! i') = Executing task"
  proof -
    obtain w' s' where r: "run_step (thread_heap t' ! i') t' = (w', s')"
      by (cases "run_step (thread_heap t' ! i') t'")
    from r p have "current_callback w' = current_callback (thread_heap t' ! i')"
      by (cases rule: run_step_elim) auto
    with i show ?thesis by (simp add: tick_self r)
  qed
  note e = step_current_kept[of t'' j e]
  note f = step_current_same[of e' j' t3]
  from a b b' have first: "list_all (\<lambda>w. current_callback w = None) (thread_heap s0)
    \<and> (\<forall>i < length (thread_heap s). \<forall>c args kw.
          w_phase (thread_heap s ! i) = Executing (c, args, kw) \<longrightarrow>
          (\<exists>name. dunder_name c = Some name \<and>
             current_callback (thread_heap s ! i) = Some (name, kwargs_get kw ''pvname'')))
    \<and> (\<forall>i < length (thread_heap s).
          current_callback (thread_heap s ! i) =
            last_identity (w_handled (thread_heap s ! i) @ in_flight (w_phase (thread_heap s ! i))))"
    by blast
  from first c d e f show ?thesis unfolding Let_def s_def s0_def by blast
qed

theorem current_callback_is_set_and_kept_witness:
  "list_all (\<lambda>w. current_callback w = None) (thread_heap example_dispatcher)
   \<and> 1 < length (thread_heap take_run)
   \<and> w_phase (thread_heap take_run ! 1) = Polling
   \<and> queue_heap take_run (w_queue (thread_heap take_run ! 1)) =
       [(append_callback, [PyInt 5], [(''pvname'', PyStr ''pv1'')])]
   \<and> dunder_name append_callback = Some ''append''
   \<and> w_phase (thread_heap (tick 1 take_run) ! 1) =
       Executing (append_callback, [PyInt 5], [(''pvname'', PyStr ''pv1'')])
   \<and> current_callback (thread_heap (tick 1 take_run) ! 1) = Some (''append'', PyStr ''pv1'')
   \<and> current_callback (thread_heap (tick 1 (tick 1 take_run)) ! 1) =
       Some (''append'', PyStr ''pv1'')
   \<and> current_callback (thread_heap (step (Tick 1) (tick 1 take_run)) ! 1) \<noteq> None
   \<and> w_phase (thread_heap idle_run ! 1) = Polling
   \<and> queue_heap idle_run (w_queue (thread_heap idle_run ! 1)) = []
   \<and> current_callback (thread_heap idle_run ! 1) =
       last_identity [(append_callback, [PyInt 5], [(''pvname'', PyStr ''pv1'')])]
   \<and> last_identity [(append_callback, [PyInt 5], [(''pvname'', PyStr ''pv1'')])] =
       Some (''append'', PyStr ''pv1'')
   \<and> current_callback (thread_heap (step (Tick 1) idle_run) ! 1) =
       Some (''append'', PyStr ''pv1'')"
proof -
  have h1: "1 < length (thread_heap take_run)" by (simp add: take_run_facts)
  note h2 = take_run_facts(2)
  have h3: "queue_heap take_run (w_queue (thread_heap take_run ! 1)) =
       (append_callback, [PyInt 5], [(''pvname'', PyStr ''pv1'')]) # []"
    using take_run_facts by simp
  have h4: "dunder_name append_callback = Some ''append''" by simp
  note t = current_callback_is_set_and_kept[where ctx = "PyOpaque ''ctx''" and lg = "[]"
      and timeout = "PyOpaque ''0.1''" and dm = False and n = 0 and u = "[]"
      and evs = "[Call (Wrapped 2 append_callback) [PyInt 5] [(''pvname'', PyStr ''pv1'')],
           Tick 1, Tick 1, Tick 1, Tick 1, Tick 1]"
      and i = 1 and t = take_run and c = append_callback and args = "[PyInt 5]"
      and kw = "[(''pvname'', PyStr ''pv1'')]" and rest = "[]" and name = "''append''"
      and i' = 1 and t' = "tick 1 take_run"
      and task = "(append_callback, [PyInt 5], [(''pvname'', PyStr ''pv1'')])"
      and j = 1 and t'' = "tick 1 take_run" and e = "Tick 1"
      and e' = "Tick 1" and j' = 1 and ?t3.0 = idle_run,
      unfolded Let_def, folded example_dispatcher_def, folded idle_run_def]
  note t2 = t
  from t have a: "list_all (\<lambda>w. current_callback w = None) (thread_heap example_dispatcher)"
    by (elim conjE)
  from t have "1 < length (thread_heap take_run) \<and> w_phase (thread_heap take_run ! 1) = Polling \<and>
       queue_heap take_run (w_queue (thread_heap take_run ! 1)) =
         (append_callback, [PyInt 5], [(''pvname'', PyStr ''pv1'')]) # [] \<and>
       dunder_name append_callback = Some ''append'' \<longrightarrow>
         w_phase (thread_heap (tick 1 take_run) ! 1) =
           Executing (append_callback, [PyInt 5], [(''pvname'', PyStr ''pv1'')]) \<and>
         current_callback (thread_heap (tick 1 take_run) ! 1) =
           Some (''append'', kwargs_get [(''pvname'', PyStr ''pv1'')] ''pvname'')"
    by (elim conjE)
  with h1 h2 h3 h4 have b: "w_phase (thread_heap (tick 1 take_run) ! 1) =
           Executing (append_callback, [PyInt 5], [(''pvname'', PyStr ''pv1'')])"
    "current_callback (thread_heap (tick 1 take_run) ! 1) = Some (''append'', PyStr ''pv1'')"
    by (simp_all add: kwargs_get_def)
  have l: "1 < length (thread_heap (tick 1 take_run))" using h1 by simp
  from t have "1 < length (thread_heap (tick 1 take_run)) \<and>
      w_phase (thread_heap (tick 1 take_run) ! 1) =
        Executing (append_callback, [PyInt 5], [(''pvname'', PyStr ''pv1'')]) \<longrightarrow>
      current_callback (thread_heap (tick 1 (tick 1 take_run)) ! 1) =
        current_callback (thread_heap (tick 1 take_run) ! 1)"
    by (elim conjE)
  with l b have c: "current_callback (thread_heap (tick 1 (tick 1 take_run)) ! 1) =
       Some (''append'', PyStr ''pv1'')" by simp
  from t have "current_callback (thread_heap (tick 1 take_run) ! 1) \<noteq> None \<longrightarrow>
      current_callback (thread_heap (step (Tick 1) (tick 1 take_run)) ! 1) \<noteq> None"
    by (elim conjE)
  with b have d: "current_callback (thread_heap (step (Tick 1) (tick 1 take_run)) ! 1) \<noteq> None"
    by simp
  from t2 have "\<forall>i < length (thread_heap idle_run).
          current_callback (thread_heap idle_run ! i) =
            last_identity (w_handled (thread_heap idle_run ! i) @
              in_flight (w_phase (thread_heap idle_run ! i)))"
    by (elim conjE)
  with idle_run_facts have f: "current_callback (thread_heap idle_run ! 1) =
       last_identity [(append_callback, [PyInt 5], [(''pvname'', PyStr ''pv1'')])]"
    by simp
  have g: "last_identity [(append_callback, [PyInt 5], [(''pvname'', PyStr ''pv1'')])] =
       Some (''append'', PyStr ''pv1'')"
    by (simp add: last_identity_def task_identity_def kwargs_get_def)
  have q: "queue_heap idle_run (w_queue (thread_heap idle_run ! 1)) = []"
    using idle_run_facts by simp
  from t2 have "(Tick 1 :: pyval list event) \<noteq> Tick 1 \<or> w_phase (thread_heap idle_run ! 1) \<noteq> Polling \<or>
       (case queue_heap idle_run (w_queue (thread_heap idle_run ! 1)) of [] \<Rightarrow> True
        | (c, args, kw) # rest \<Rightarrow> dunder_name c = None) \<longrightarrow>
         current_callback (thread_heap (step (Tick 1) idle_run) ! 1) =
           current_callback (thread_heap idle_run ! 1)"
    by (elim conjE)
  with q f g have k: "current_callback (thread_heap (step (Tick 1) idle_run) ! 1) =
       Some (''append'', PyStr ''pv1'')"
    by simp
  note p = idle_run_facts(2)
  from a h1 h2 h3 h4 b c d p q f g k show ?thesis by simp
qed




end
